theory Spec2Isabelle
  imports Complex_Main "HOL-Library.Word" "HOL-Library.AList"
begin

section \<open>Data model of \<^verbatim>\<open>xdp_collect.py\<close>\<close>

text \<open>
  The kernel program \<^verbatim>\<open>xdp_collect.c\<close> declares the two BPF tables \<^verbatim>\<open>flows\<close> and
  \<^verbatim>\<open>cache\<close> and the structs of their keys and leaves. The Python engine reads the leaf
  fields \<^verbatim>\<open>packets\<close>, \<^verbatim>\<open>bytes\<close>, \<^verbatim>\<open>start\<close>, \<^verbatim>\<open>end\<close> and the key fields
  \<^verbatim>\<open>l2_proto\<close>, \<^verbatim>\<open>l4_proto\<close>, \<^verbatim>\<open>src_ip\<close>, \<^verbatim>\<open>dst_ip\<close>, \<^verbatim>\<open>src_port\<close>, \<^verbatim>\<open>dst_port\<close>.
\<close>

text \<open>
  Modelled from the spec: the leaf struct of \<^verbatim>\<open>xdp_collect.c\<close> (PerCPUAccumulator): four
  unsigned 64-bit counters. The field \<^verbatim>\<open>end\<close> is named \<open>end_ns\<close> here.
\<close>

record accm =
  packets :: "64 word"
  bytes :: "64 word"
  start :: "64 word"
  end_ns :: "64 word"

text \<open>
  Modelled from the spec: the key struct of \<^verbatim>\<open>xdp_collect.c\<close> (FlowKey). The widths are
  those the Python code relies on: \<^verbatim>\<open>ntohl\<close> takes a 32-bit value, \<^verbatim>\<open>ntohs\<close> a 16-bit one.
\<close>

record attrs =
  l2_proto :: "16 word"
  l4_proto :: "8 word"
  src_ip :: "32 word"
  dst_ip :: "32 word"
  src_port :: "16 word"
  dst_port :: "16 word"

text \<open>
  A BPF hash table is an association list of key and per-CPU leaf array; \<^verbatim>\<open>items()\<close>
  enumerates it. The kernel keeps one entry per key.
\<close>

type_synonym table = "(attrs \<times> accm list) list"

record tables =
  flows :: table
  cache :: table

datatype error =
    IndexError
  | KeyError
  | TableFull
  | AttributeError
  | ValueError
  | UnboundLocalError

text \<open>
  What the engine takes from its platform: the global \<^verbatim>\<open>CPU_COUNT\<close>, the capacity of the
  \<^verbatim>\<open>cache\<close> table (its \<^verbatim>\<open>max_entries\<close>, declared in \<^verbatim>\<open>xdp_collect.c\<close>), and the
  floating-point arithmetic of Python. A float is the real number it denotes; every
  arithmetic operation is the exact operation followed by the rounding \<open>rnd\<close>;
  \<open>float_str\<close> is \<^verbatim>\<open>str\<close> of a float and \<open>float_of_str\<close> is \<^verbatim>\<open>float\<close> of a string
  (\<open>None\<close> where it raises ValueError). \<open>set_iter\<close> is the order in which Python iterates
  over the set built by adding the given strings one after the other.
\<close>

record env =
  CPU_COUNT :: nat
  cache_max :: nat
  rnd :: "real \<Rightarrow> real"
  float_str :: "real \<Rightarrow> string"
  float_of_str :: "string \<Rightarrow> real option"
  set_iter :: "string list \<Rightarrow> string list"

section \<open>Table operations\<close>

definition items :: "table \<Rightarrow> table" where
  "items t = t"

definition keys :: "table \<Rightarrow> attrs list" where
  "keys t = map fst t"

text \<open>\<^verbatim>\<open>table.__getitem__(k)\<close>: KeyError on a missing key.\<close>

definition getitem :: "table \<Rightarrow> attrs \<Rightarrow> error + accm list" where
  "getitem t k = (case map_of t k of None \<Rightarrow> Inl KeyError | Some v \<Rightarrow> Inr v)"

text \<open>
  \<^verbatim>\<open>table.__setitem__(k, v)\<close>: overwrites the leaf of a present key, inserts a new key
  while the table has room and raises otherwise.
\<close>

definition setitem :: "nat \<Rightarrow> table \<Rightarrow> attrs \<Rightarrow> accm list \<Rightarrow> error + table" where
  "setitem cap t k v =
     (if k \<in> set (keys t) then Inr (AList.update k v t)
      else if length t < cap then Inr (AList.update k v t)
      else Inl TableFull)"

text \<open>\<^verbatim>\<open>table.__delitem__(k)\<close>: KeyError on a missing key.\<close>

definition delitem :: "table \<Rightarrow> attrs \<Rightarrow> error + table" where
  "delitem t k = (if k \<in> set (keys t) then Inr (AList.delete k t) else Inl KeyError)"

section \<open>The eviction sweep \<^verbatim>\<open>_sweep_flows\<close>\<close>

text \<open>
  The inner loop over \<^verbatim>\<open>range(0, CPU_COUNT)\<close>: the most recent \<^verbatim>\<open>end\<close> stamp, from 0.
  Reading \<^verbatim>\<open>accms[j]\<close> beyond the array raises IndexError.
\<close>

fun recent_stamp :: "accm list \<Rightarrow> nat list \<Rightarrow> int \<Rightarrow> error + int" where
  "recent_stamp accms [] recent = Inr recent"
| "recent_stamp accms (j # js) recent =
     (if j < length accms
      then recent_stamp accms js
             (if uint (end_ns (accms ! j)) > recent then uint (end_ns (accms ! j)) else recent)
      else Inl IndexError)"

text \<open>\<^verbatim>\<open>stamp/1e9 + offset\<close>: a monotonic nanosecond stamp as wall-clock seconds.\<close>

definition to_unix :: "env \<Rightarrow> real \<Rightarrow> int \<Rightarrow> real" where
  "to_unix P offset stamp = rnd P (rnd P (rnd P (of_int stamp) / 1000000000) + offset)"

text \<open>\<^verbatim>\<open>idle_time = now - (recent_stamp/1e9 + offset)\<close>\<close>

definition idle_time :: "env \<Rightarrow> real \<Rightarrow> real \<Rightarrow> int \<Rightarrow> real" where
  "idle_time P now offset recent = rnd P (now - to_unix P offset recent)"

text \<open>
  The first loop of the sweep, over \<^verbatim>\<open>flows.items()\<close>: it appends to \<^verbatim>\<open>old_flows\<close> the key
  of every flow whose idle time exceeds \<^verbatim>\<open>agg_time\<close>. It reads the tables only.
\<close>

fun find_old :: "env \<Rightarrow> real \<Rightarrow> real \<Rightarrow> int \<Rightarrow> table \<Rightarrow> attrs list \<Rightarrow> error + attrs list" where
  "find_old P now offset agg_time [] old_flows = Inr old_flows"
| "find_old P now offset agg_time ((k, accms) # cur_flows) old_flows =
     (case recent_stamp accms [0..<CPU_COUNT P] 0 of
        Inl e \<Rightarrow> Inl e
      | Inr recent \<Rightarrow>
          find_old P now offset agg_time cur_flows
            (if idle_time P now offset recent > of_int agg_time
             then old_flows @ [k] else old_flows))"

text \<open>
  The final loop of the sweep, over \<^verbatim>\<open>old_flows\<close>: store the flow's leaf array in the
  cache, then delete the flow from the live table. A raising table operation stops the
  loop and leaves the tables as they are at that point.
\<close>

fun move_old :: "env \<Rightarrow> attrs list \<Rightarrow> tables \<Rightarrow> error option \<times> tables" where
  "move_old P [] s = (None, s)"
| "move_old P (flow # old_flows) s =
     (case getitem (flows s) flow of
        Inl e \<Rightarrow> (Some e, s)
      | Inr v \<Rightarrow>
         (case setitem (cache_max P) (cache s) flow v of
            Inl e \<Rightarrow> (Some e, s)
          | Inr c \<Rightarrow>
             (case delitem (flows s) flow of
                Inl e \<Rightarrow> (Some e, s\<lparr>cache := c\<rparr>)
              | Inr f \<Rightarrow> move_old P old_flows (s\<lparr>flows := f, cache := c\<rparr>))))"

definition sweep_flows :: "env \<Rightarrow> real \<Rightarrow> real \<Rightarrow> int \<Rightarrow> tables \<Rightarrow> error option \<times> tables" where
  "sweep_flows P now offset agg_time s =
     (case find_old P now offset agg_time (items (flows s)) [] of
        Inl e \<Rightarrow> (Some e, s)
      | Inr old_flows \<Rightarrow> move_old P old_flows s)"

section \<open>The drain after the collection loop\<close>

text \<open>
  The loop "Transfer remaining flows to cache" of \<^verbatim>\<open>main\<close>: every entry of
  \<^verbatim>\<open>flows.items()\<close> is stored in the cache. Nothing is deleted from the live table.
\<close>

fun cache_rest :: "env \<Rightarrow> table \<Rightarrow> tables \<Rightarrow> error option \<times> tables" where
  "cache_rest P [] s = (None, s)"
| "cache_rest P ((k, accms) # cur_flows) s =
     (case setitem (cache_max P) (cache s) k accms of
        Inl e \<Rightarrow> (Some e, s)
      | Inr c \<Rightarrow> cache_rest P cur_flows (s\<lparr>cache := c\<rparr>))"

text \<open>
  \<^verbatim>\<open>_sweep_flows(flows, cache, offset, 0)\<close> followed by the transfer loop. Between the two
  the classifier, where still attached, may store the leaves \<open>late\<close> in the live table.
\<close>

definition classify :: "table \<Rightarrow> tables \<Rightarrow> tables" where
  "classify writes s = s\<lparr>flows := foldl (\<lambda>t (k, v). AList.update k v t) (flows s) writes\<rparr>"

definition drain :: "env \<Rightarrow> real \<Rightarrow> real \<Rightarrow> table \<Rightarrow> tables \<Rightarrow> error option \<times> tables" where
  "drain P now offset late s =
     (case sweep_flows P now offset 0 s of
        (Some e, s') \<Rightarrow> (Some e, s')
      | (None, s') \<Rightarrow> cache_rest P (items (flows (classify late s'))) (classify late s'))"

section \<open>The report compiler\<close>

subsection \<open>Rendering\<close>

text \<open>\<^verbatim>\<open>str\<close> of a non-negative integer, and \<^verbatim>\<open>hex\<close>.\<close>

definition digit_char :: "nat \<Rightarrow> char" where
  "digit_char d = (''0123456789abcdef'') ! d"

fun digits :: "nat \<Rightarrow> nat \<Rightarrow> string" where
  "digits b n = (if b < 2 \<or> n < b then [digit_char n] else digits b (n div b) @ [digit_char (n mod b)])"

declare digits.simps [simp del]

definition str_nat :: "nat \<Rightarrow> string" where
  "str_nat n = digits 10 n"

definition str_int :: "int \<Rightarrow> string" where
  "str_int i = (if i < 0 then CHR 0x2D # str_nat (nat (- i)) else str_nat (nat i))"

definition hex :: "nat \<Rightarrow> string" where
  "hex n = ''0x'' @ digits 16 n"

text \<open>\<^verbatim>\<open>socket.ntohs\<close> and \<^verbatim>\<open>socket.ntohl\<close> on a little-endian host: the bytes reversed.\<close>

definition ntohs :: "16 word \<Rightarrow> 16 word" where
  "ntohs x = or (push_bit 8 x) (drop_bit 8 x)"

definition ntohl :: "32 word \<Rightarrow> 32 word" where
  "ntohl x = or (or (push_bit 24 x) (push_bit 8 (and x 0xFF00)))
                (or (and (drop_bit 8 x) 0xFF00) (drop_bit 24 x))"

text \<open>\<^verbatim>\<open>str(ipaddress.ip_address(n))\<close> for a 32-bit \<open>n\<close>: the dotted quad.\<close>

definition ip_address :: "32 word \<Rightarrow> string" where
  "ip_address n =
     str_nat (unat (drop_bit 24 n)) @ ''.'' @ str_nat (unat (and (drop_bit 16 n) 0xFF)) @ ''.'' @
     str_nat (unat (and (drop_bit 8 n) 0xFF)) @ ''.'' @ str_nat (unat (and n 0xFF))"

subsection \<open>Merging the per-CPU accumulators\<close>

text \<open>
  The loop over \<^verbatim>\<open>range(0, CPU_COUNT)\<close> in the report compiler. The state is
  \<^verbatim>\<open>(n_packets, n_bytes, start, end)\<close>, from \<^verbatim>\<open>(0, 0, -1, -1)\<close>.
\<close>

fun merge_accms :: "accm list \<Rightarrow> nat list \<Rightarrow> int \<times> int \<times> int \<times> int \<Rightarrow> error + int \<times> int \<times> int \<times> int" where
  "merge_accms all_j [] acc = Inr acc"
| "merge_accms all_j (j # js) (n_packets, n_bytes, start_t, end_t) =
     (if j < length all_j
      then let accms = all_j ! j in
           merge_accms all_j js
             (n_packets + uint (packets accms),
              n_bytes + uint (bytes accms),
              if start_t = - 1 then uint (start accms) else min start_t (uint (start accms)),
              if start_t = - 1 then uint (end_ns accms) else max end_t (uint (end_ns accms)))
      else Inl IndexError)"

subsection \<open>One row\<close>

text \<open>
  The address columns: \<^verbatim>\<open>ipaddress.ip_address(ntohl(...))\<close> for ethertype 0x0800; for
  0x8100 the code calls \<^verbatim>\<open>ipaddress.ipv6_address\<close>, which the module does not have, so the
  attribute lookup raises; for any other ethertype both columns stay the empty string.
\<close>

definition addr_columns :: "attrs \<Rightarrow> error + string \<times> string" where
  "addr_columns k =
     (if l2_proto k = 0x0800 then Inr (ip_address (ntohl (src_ip k)), ip_address (ntohl (dst_ip k)))
      else if l2_proto k = 0x8100 then Inl AttributeError
      else Inr ([], []))"

record row =
  col_start :: real
  col_end :: real
  col_src_ip :: string
  col_dst_ip :: string
  col_src_p :: nat
  col_dst_p :: nat
  col_l2_proto :: nat
  col_l4_proto :: nat
  col_n_packets :: int
  col_n_bytes :: int

text \<open>The arguments of \<^verbatim>\<open>format\<close> for one cache entry.\<close>

definition row_of :: "env \<Rightarrow> real \<Rightarrow> attrs \<times> accm list \<Rightarrow> error + row" where
  "row_of P offset kv =
     (case merge_accms (snd kv) [0..<CPU_COUNT P] (0, 0, - 1, - 1) of
        Inl e \<Rightarrow> Inl e
      | Inr (n_packets, n_bytes, start_t, end_t) \<Rightarrow>
         (case addr_columns (fst kv) of
            Inl e \<Rightarrow> Inl e
          | Inr (src, dst) \<Rightarrow>
              Inr \<lparr>col_start = to_unix P offset start_t,
                   col_end = to_unix P offset end_t,
                   col_src_ip = src, col_dst_ip = dst,
                   col_src_p = unat (ntohs (src_port (fst kv))),
                   col_dst_p = unat (ntohs (dst_port (fst kv))),
                   col_l2_proto = unat (l2_proto (fst kv)),
                   col_l4_proto = unat (l4_proto (fst kv)),
                   col_n_packets = n_packets, col_n_bytes = n_bytes\<rparr>))"

text \<open>\<^verbatim>\<open>"{},{},{},{},{},{},{},{},{},{}
".format(...)\<close>\<close>

definition format_row :: "env \<Rightarrow> row \<Rightarrow> string" where
  "format_row P r =
     float_str P (col_start r) @ '','' @ float_str P (col_end r) @ '','' @
     col_src_ip r @ '','' @ col_dst_ip r @ '','' @
     str_nat (col_src_p r) @ '','' @ str_nat (col_dst_p r) @ '','' @
     hex (col_l2_proto r) @ '','' @ str_nat (col_l4_proto r) @ '','' @
     str_int (col_n_packets r) @ '','' @ str_int (col_n_bytes r) @ [CHR 0x0A]"

definition flow_row :: "env \<Rightarrow> real \<Rightarrow> attrs \<times> accm list \<Rightarrow> error + string" where
  "flow_row P offset kv =
     (case row_of P offset kv of Inl e \<Rightarrow> Inl e | Inr r \<Rightarrow> Inr (format_row P r))"

subsection \<open>The row set, the sort and the file\<close>

text \<open>\<^verbatim>\<open>flow_set.add(x)\<close>: a set keeps one copy of equal strings.\<close>

definition set_add :: "string \<Rightarrow> string list \<Rightarrow> string list" where
  "set_add x flow_set = (if x \<in> set flow_set then flow_set else flow_set @ [x])"

fun compile_rows :: "env \<Rightarrow> real \<Rightarrow> table \<Rightarrow> string list \<Rightarrow> error + string list" where
  "compile_rows P offset [] flow_set = Inr flow_set"
| "compile_rows P offset (kv # all_flows) flow_set =
     (case flow_row P offset kv of
        Inl e \<Rightarrow> Inl e
      | Inr x \<Rightarrow> compile_rows P offset all_flows (set_add x flow_set))"

text \<open>\<^verbatim>\<open>x[:x.find(',')]\<close>: up to the first comma; without a comma \<^verbatim>\<open>find\<close> is -1 and the
  slice drops the last character.\<close>

definition leading :: "string \<Rightarrow> string" where
  "leading x = (if CHR '','' \<in> set x then takeWhile (\<lambda>c. c \<noteq> CHR '','') x else butlast x)"

text \<open>
  \<^verbatim>\<open>sorted(flow_set, key=lambda x: float(x[:x.find(',')]))\<close>: the keys are computed first
  (ValueError where \<^verbatim>\<open>float\<close> rejects the field), then the rows are sorted stably.
\<close>

definition sort_rows :: "env \<Rightarrow> string list \<Rightarrow> error + string list" where
  "sort_rows P flow_set =
     (if list_all (\<lambda>x. float_of_str P (leading x) \<noteq> None) (set_iter P flow_set)
      then Inr (sort_key (\<lambda>x. the (float_of_str P (leading x))) (set_iter P flow_set))
      else Inl ValueError)"

definition header :: string where
  "header = ''START, END, SRC IP, DST IP, SRC PORT, DST PORT, ETHER TYPE, PROTO, #PACKETS, #BYTES'' @ [CHR 0x0A]"

section \<open>The engine \<^verbatim>\<open>main\<close>\<close>

text \<open>
  What happens while the collection loop runs: the classifier stores a leaf array under a
  key of the live table (during \<^verbatim>\<open>time.sleep\<close>), or an iteration of the loop sweeps at the
  wall-clock time \<^verbatim>\<open>now\<close>. The loop ends when its window is over, or when a
  KeyboardInterrupt arrives during the sleep, or when one arrives in the middle of a sweep,
  between two table operations.
\<close>

datatype event = Packets attrs "accm list" | Sweep real

datatype stop = WindowEnd | Interrupt | Interrupt_in_sweep real nat bool

fun interrupted :: "stop \<Rightarrow> bool" where
  "interrupted WindowEnd = False"
| "interrupted Interrupt = True"
| "interrupted (Interrupt_in_sweep now n stored) = True"

datatype effect = Remove_xdp | Open_w | Write string

text \<open>
  The collection loop. It returns the error a sweep raised, if any, the tables at the end
  and every state of the tables on the way.
\<close>

fun collect :: "env \<Rightarrow> real \<Rightarrow> int \<Rightarrow> event list \<Rightarrow> tables \<Rightarrow> error option \<times> tables \<times> tables list" where
  "collect P offset agg_time [] s = (None, s, [s])"
| "collect P offset agg_time (Packets k v # evs) s =
     (case collect P offset agg_time evs (classify [(k, v)] s) of
        (e, s', h) \<Rightarrow> (e, s', s # h))"
| "collect P offset agg_time (Sweep now # evs) s =
     (case sweep_flows P now offset agg_time s of
        (Some e, s') \<Rightarrow> (Some e, s', [s, s'])
      | (None, s') \<Rightarrow>
         (case collect P offset agg_time evs s' of
            (e, s'', h) \<Rightarrow> (e, s'', s # h)))"

text \<open>
  A sweep that KeyboardInterrupt cuts short at the wall-clock time \<^verbatim>\<open>now\<close>: the first \<open>n\<close>
  candidates have been moved and, with \<open>stored\<close>, the next one has been stored in the
  cache and is not yet deleted from the live table. An exception raised before that
  point ends the process as in a full sweep.
\<close>

definition interrupted_sweep :: "env \<Rightarrow> real \<Rightarrow> real \<Rightarrow> int \<Rightarrow> nat \<Rightarrow> bool \<Rightarrow> tables \<Rightarrow> error option \<times> tables" where
  "interrupted_sweep P now offset agg_time n stored s =
     (case find_old P now offset agg_time (items (flows s)) [] of
        Inl e \<Rightarrow> (Some e, s)
      | Inr old_flows \<Rightarrow>
         (case move_old P (take n old_flows) s of
            (Some e, s') \<Rightarrow> (Some e, s')
          | (None, s') \<Rightarrow>
             if stored \<and> n < length old_flows
             then (case getitem (flows s') (old_flows ! n) of
                     Inl e \<Rightarrow> (Some e, s')
                   | Inr v \<Rightarrow>
                      (case setitem (cache_max P) (cache s') (old_flows ! n) v of
                         Inl e \<Rightarrow> (Some e, s')
                       | Inr c \<Rightarrow> (None, s'\<lparr>cache := c\<rparr>)))
             else (None, s')))"

text \<open>The \<^verbatim>\<open>try\<close> block around the collection loop, up to the way the loop ends.\<close>

definition collection_loop :: "env \<Rightarrow> real \<Rightarrow> int \<Rightarrow> event list \<Rightarrow> stop \<Rightarrow> tables \<Rightarrow> error option \<times> tables \<times> tables list" where
  "collection_loop P offset agg_time evs stop s0 =
     (case collect P offset agg_time evs s0 of
        (Some e, s1, h) \<Rightarrow> (Some e, s1, h)
      | (None, s1, h) \<Rightarrow>
         (case stop of
            Interrupt_in_sweep now n stored \<Rightarrow>
              (case interrupted_sweep P now offset agg_time n stored s1 of
                 (e, s1') \<Rightarrow> (e, s1', h @ [s1']))
          | _ \<Rightarrow> (None, s1, h)))"

text \<open>
  The \<^verbatim>\<open>try ... finally\<close> block that compiles the rows, and the sort and the writes after
  it. \<^verbatim>\<open>open(out_file, "w+")\<close> may fail; the \<^verbatim>\<open>finally\<close> block then detaches the
  classifier and raises on the unbound \<^verbatim>\<open>f\<close>. The effects are listed in the order of
  their execution.
\<close>

definition report :: "env \<Rightarrow> real \<Rightarrow> bool \<Rightarrow> table \<Rightarrow> error option \<times> effect list" where
  "report P offset open_ok c =
     (if \<not> open_ok then (Some UnboundLocalError, [Remove_xdp])
      else case compile_rows P offset (items c) [] of
        Inl e \<Rightarrow> (Some e, [Open_w, Remove_xdp])
      | Inr flow_set \<Rightarrow>
         (case sort_rows P flow_set of
            Inl e \<Rightarrow> (Some e, [Open_w, Remove_xdp])
          | Inr s_flow_set \<Rightarrow> (None, [Open_w, Remove_xdp] @ map Write (header # s_flow_set))))"

record outcome =
  raised :: "error option"
  effects :: "effect list"
  visited :: "tables list"
  cold :: "table option"

text \<open>
  \<^verbatim>\<open>main\<close> from the collection loop on; the offset computed at startup and the aggregation
  time are its parameters, logging and the debug print are left out. The clock decides
  how many iterations the loop runs: they are the \<open>Sweep\<close> events, each with the time its
  sweep reads. An exception of a sweep inside the loop or of the
  drain is not caught and ends the process there. After a KeyboardInterrupt the handler
  detaches the classifier, so no classifier write follows it. The outcome lists the
  exception that ended the process, if any, the effects in the order of their execution,
  the states of the tables on the way, and the final cache handed to the report compiler
  once the drain is complete.
\<close>

definition main :: "env \<Rightarrow> real \<Rightarrow> int \<Rightarrow> event list \<Rightarrow> stop \<Rightarrow> real \<Rightarrow> table \<Rightarrow> bool \<Rightarrow> tables \<Rightarrow> outcome" where
  "main P offset agg_time evs stop now late open_ok s0 =
     (case collection_loop P offset agg_time evs stop s0 of
        (Some e, s1, h) \<Rightarrow> \<lparr>raised = Some e, effects = [], visited = h, cold = None\<rparr>
      | (None, s1, h) \<Rightarrow>
         (case drain P now offset (if interrupted stop then [] else late) s1 of
            (Some e, s2) \<Rightarrow>
              \<lparr>raised = Some e,
               effects = (if interrupted stop then [Remove_xdp] else []),
               visited = h @ [s2], cold = None\<rparr>
          | (None, s2) \<Rightarrow>
             (case report P offset open_ok (cache s2) of
                (e, fx) \<Rightarrow>
                  \<lparr>raised = e,
                   effects = (if interrupted stop then [Remove_xdp] else []) @ fx,
                   visited = h @ [s2], cold = Some (cache s2)\<rparr>)))"

text \<open>How often \<^verbatim>\<open>bpf.remove_xdp\<close> ran, and the lines written to the output file.\<close>

definition detached :: "outcome \<Rightarrow> nat" where
  "detached r = length (filter (\<lambda>x. x = Remove_xdp) (effects r))"

fun written :: "effect list \<Rightarrow> string list" where
  "written [] = []"
| "written (Write x # fx) = x # written fx"
| "written (_ # fx) = written fx"

section \<open>The specification's merged view\<close>

text \<open>
  The latest end stamp as the sweep takes it: the greatest \<^verbatim>\<open>end\<close> of the first \<open>n\<close>
  shards, and 0 when all of them are 0.
\<close>

definition latest_end :: "nat \<Rightarrow> accm list \<Rightarrow> int" where
  "latest_end n accms = Max (insert 0 ((\<lambda>a. uint (end_ns a)) ` set (take n accms)))"

definition idle_seconds :: "env \<Rightarrow> real \<Rightarrow> real \<Rightarrow> accm list \<Rightarrow> real" where
  "idle_seconds P now offset accms =
     rnd P (now - rnd P (rnd P (rnd P (of_int (latest_end (CPU_COUNT P) accms)) / 1000000000) + offset))"

text \<open>
  The totals and the extreme stamps of a leaf array over all of its shards, and over the
  shards that have recorded at least one packet, as the specification words the merged
  view.
\<close>

definition total_packets :: "accm list \<Rightarrow> int" where
  "total_packets accms = sum_list (map (\<lambda>a. uint (packets a)) accms)"

definition total_bytes :: "accm list \<Rightarrow> int" where
  "total_bytes accms = sum_list (map (\<lambda>a. uint (bytes a)) accms)"

definition min_start :: "accm list \<Rightarrow> int" where
  "min_start accms = Min (set (map (\<lambda>a. uint (start a)) accms))"

definition max_end :: "accm list \<Rightarrow> int" where
  "max_end accms = Max (set (map (\<lambda>a. uint (end_ns a)) accms))"

definition recorded :: "accm list \<Rightarrow> accm list" where
  "recorded accms = filter (\<lambda>a. packets a \<noteq> 0) accms"

definition earliest_start_ns :: "accm list \<Rightarrow> int" where
  "earliest_start_ns accms = min_start (recorded accms)"

definition latest_end_ns :: "accm list \<Rightarrow> int" where
  "latest_end_ns accms = max_end (recorded accms)"

text \<open>A live table as the kernel hands it out: one entry per key, one shard per CPU.\<close>

definition wf_table :: "env \<Rightarrow> table \<Rightarrow> bool" where
  "wf_table P t = (distinct (keys t) \<and> list_all (\<lambda>kv. CPU_COUNT P \<le> length (snd kv)) t)"

text \<open>The keys the engine holds, in the live table or in the cache.\<close>

definition known :: "tables \<Rightarrow> attrs set" where
  "known s = set (keys (flows s)) \<union> set (keys (cache s))"

section \<open>Example data\<close>

text \<open>
  A platform with two CPUs and exact arithmetic, on which floats with an integral value
  are printed with one decimal and read back from their integral part.
\<close>

definition nat_of_digits :: "string \<Rightarrow> nat" where
  "nat_of_digits ds = fold (\<lambda>c n. 10 * n + (of_char c - 48)) ds 0"

definition example_str :: "real \<Rightarrow> string" where
  "example_str x = str_int \<lfloor>x\<rfloor> @ ''.0''"

definition example_float :: "string \<Rightarrow> real option" where
  "example_float x =
     (if x \<noteq> [] \<and> list_all (\<lambda>c. c \<in> set ''0123456789.'') x
      then Some (of_nat (nat_of_digits (takeWhile (\<lambda>c. c \<noteq> CHR ''.'') x)))
      else None)"

definition example_env :: env where
  "example_env = \<lparr>CPU_COUNT = 2, cache_max = 8, rnd = (\<lambda>x. x),
     float_str = example_str, float_of_str = example_float, set_iter = (\<lambda>xs. xs)\<rparr>"

definition idle_shard :: accm where
  "idle_shard = \<lparr>packets = 0, bytes = 0, start = 0, end_ns = 0\<rparr>"

definition shard_a :: accm where
  "shard_a = \<lparr>packets = 1, bytes = 60, start = 3000000000, end_ns = 5000000000\<rparr>"

definition shard_b :: accm where
  "shard_b = \<lparr>packets = 2, bytes = 120, start = 2000000000, end_ns = 4000000000\<rparr>"

definition key_a :: attrs where
  "key_a = \<lparr>l2_proto = 0x0800, l4_proto = 6, src_ip = 0x0100007F, dst_ip = 0x0200A8C0,
     src_port = 0x5000, dst_port = 0xBB01\<rparr>"

definition key_b :: attrs where
  "key_b = \<lparr>l2_proto = 0x86DD, l4_proto = 17, src_ip = 1, dst_ip = 2,
     src_port = 0x3500, dst_port = 0x3500\<rparr>"

definition key_c :: attrs where
  "key_c = \<lparr>l2_proto = 0x86DD, l4_proto = 17, src_ip = 3, dst_ip = 4,
     src_port = 0x3500, dst_port = 0x3500\<rparr>"

definition live_a :: tables where
  "live_a = \<lparr>flows = [(key_a, [idle_shard, shard_a])], cache = []\<rparr>"

definition live_ab :: tables where
  "live_ab = \<lparr>flows = [(key_a, [idle_shard, shard_a]), (key_b, [shard_b, idle_shard])], cache = []\<rparr>"

definition no_flows :: tables where
  "no_flows = \<lparr>flows = [], cache = []\<rparr>"

definition example_run :: "event list" where
  "example_run = [Packets key_a [idle_shard, shard_a], Packets key_b [shard_b, idle_shard], Sweep 165]"

definition swept_b :: tables where
  "swept_b = \<lparr>flows = [(key_a, [idle_shard, shard_a])], cache = [(key_b, [shard_b, idle_shard])]\<rparr>"

definition drained_ab :: tables where
  "drained_ab = \<lparr>flows = [], cache = [(key_b, [shard_b, idle_shard]), (key_a, [idle_shard, shard_a])]\<rparr>"

definition copied_a :: tables where
  "copied_a = \<lparr>flows = [(key_a, [idle_shard, shard_a])], cache = [(key_a, [idle_shard, shard_a])]\<rparr>"

definition final_cache :: table where
  "final_cache = [(key_a, [shard_a, shard_a]), (key_b, [shard_b, shard_b]), (key_c, [shard_b, shard_b])]"

definition row_a :: string where
  "row_a = ''103.0,105.0,127.0.0.1,192.168.0.2,80,443,0x800,6,2,120'' @ [CHR 0x0A]"

definition row_b :: string where
  "row_b = ''102.0,104.0,,,53,53,0x86dd,17,4,240'' @ [CHR 0x0A]"

definition key_v :: attrs where
  "key_v = \<lparr>l2_proto = 0x8100, l4_proto = 6, src_ip = 1, dst_ip = 2, src_port = 0x5000, dst_port = 0x5000\<rparr>"

definition vlan_run :: "event list" where
  "vlan_run = [Packets key_v [shard_a, shard_a]]"

definition live_v :: tables where
  "live_v = \<lparr>flows = [(key_v, [shard_a, shard_a])], cache = []\<rparr>"

definition drained_v :: tables where
  "drained_v = \<lparr>flows = [], cache = [(key_v, [shard_a, shard_a])]\<rparr>"

definition example_writes :: "event list" where
  "example_writes = [Packets key_a [idle_shard, shard_a], Packets key_b [shard_b, idle_shard]]"

definition half_moved_b :: tables where
  "half_moved_b = \<lparr>flows = [(key_a, [idle_shard, shard_a]), (key_b, [shard_b, idle_shard])],
     cache = [(key_b, [shard_b, idle_shard])]\<rparr>"

section \<open>The first pass of the sweep\<close>

lemma recent_stamp_fold:
  "list_all (\<lambda>j. j < length accms) js \<Longrightarrow>
   recent_stamp accms js r = Inr (fold (\<lambda>j r. max r (uint (end_ns (accms ! j)))) js r)"
  by (induction js arbitrary: r) (auto simp: max_def)

lemma recent_stamp_error:
  "\<not> list_all (\<lambda>j. j < length accms) js \<Longrightarrow> recent_stamp accms js r = Inl IndexError"
  by (induction js arbitrary: r) auto

lemma fold_max_upt:
  "n \<le> length xs \<Longrightarrow>
   fold (\<lambda>j r. max r (f (xs ! j))) [0..<n] (r0::int) = Max (insert r0 (f ` set (take n xs)))"
proof (induction n)
  case 0
  then show ?case by simp
next
  case (Suc n)
  then have n: "n < length xs" by simp
  have "Max (insert r0 (f ` set (take (Suc n) xs))) = Max (insert (f (xs ! n)) (insert r0 (f ` set (take n xs))))"
    using n by (simp add: take_Suc_conv_app_nth insert_commute)
  also have "\<dots> = max (f (xs ! n)) (Max (insert r0 (f ` set (take n xs))))"
    by (rule Max_insert) auto
  finally show ?case using Suc n by (simp add: max.commute)
qed

lemma recent_stamp_latest_end:
  "CPU_COUNT P \<le> length accms \<Longrightarrow>
   recent_stamp accms [0..<CPU_COUNT P] 0 = Inr (latest_end (CPU_COUNT P) accms)"
  using fold_max_upt [of "CPU_COUNT P" accms "\<lambda>a. uint (end_ns a)" 0]
  by (simp add: recent_stamp_fold list_all_iff latest_end_def)

lemma recent_stamp_short:
  "\<not> CPU_COUNT P \<le> length accms \<Longrightarrow> recent_stamp accms [0..<CPU_COUNT P] 0 = Inl IndexError"
  by (rule recent_stamp_error) (auto simp: list_all_iff)

lemma idle_time_latest:
  "idle_time P now offset (latest_end (CPU_COUNT P) accms) = idle_seconds P now offset accms"
  by (simp add: idle_time_def to_unix_def idle_seconds_def)

lemma find_old_filter:
  "list_all (\<lambda>kv. CPU_COUNT P \<le> length (snd kv)) t \<Longrightarrow>
   find_old P now offset agg t old =
     Inr (old @ map fst (filter (\<lambda>kv. idle_seconds P now offset (snd kv) > of_int agg) t))"
  by (induction t arbitrary: old) (auto simp: recent_stamp_latest_end idle_time_latest)

lemma find_old_error:
  "\<not> list_all (\<lambda>kv. CPU_COUNT P \<le> length (snd kv)) t \<Longrightarrow>
   find_old P now offset agg t old = Inl IndexError"
proof (induction t arbitrary: old)
  case Nil
  then show ?case by simp
next
  case (Cons kv t)
  obtain k accms where kv: "kv = (k, accms)" by (cases kv)
  show ?case
  proof (cases "CPU_COUNT P \<le> length accms")
    case True
    with Cons kv show ?thesis by (simp add: recent_stamp_latest_end)
  next
    case False
    with kv show ?thesis by (simp add: recent_stamp_short)
  qed
qed

section \<open>Tables under the second pass of the sweep\<close>

lemma getitem_Inr: "getitem t k = Inr v \<longleftrightarrow> map_of t k = Some v"
  by (simp add: getitem_def split: option.splits)

lemma setitem_Inr: "setitem cap t k v = Inr c \<Longrightarrow> c = AList.update k v t"
  by (simp add: setitem_def split: if_splits)

lemma delitem_Inr: "delitem t k = Inr f \<longleftrightarrow> k \<in> set (keys t) \<and> f = AList.delete k t"
  by (auto simp: delitem_def)

lemma keys_update: "set (keys (AList.update k v t)) = insert k (set (keys t))"
  using dom_update [of k v t] by (simp add: keys_def)

lemma keys_delete: "set (keys (AList.delete k t)) = set (keys t) - {k}"
  by (simp add: keys_def delete_keys)

lemma distinct_keys_update: "distinct (keys t) \<Longrightarrow> distinct (keys (AList.update k v t))"
  by (simp add: keys_def distinct_update)

lemma map_of_in_keys: "map_of t k = Some v \<Longrightarrow> k \<in> set (keys t)"
  by (auto simp: keys_def dest: map_of_SomeD intro: rev_image_eqI)

lemma move_old_untouched:
  "move_old P old s = (e, s') \<Longrightarrow> k \<notin> set (keys (flows s)) \<Longrightarrow>
   map_of (cache s') k = map_of (cache s) k \<and> k \<notin> set (keys (flows s'))"
proof (induction old arbitrary: s)
  case Nil
  then show ?case by simp
next
  case (Cons flow old)
  show ?case
  proof (cases "getitem (flows s) flow")
    case (Inl x)
    with Cons.prems show ?thesis by simp
  next
    case (Inr v)
    then have fk: "flow \<in> set (keys (flows s))" by (simp add: getitem_Inr map_of_in_keys)
    with Cons.prems have ne: "k \<noteq> flow" by auto
    show ?thesis
    proof (cases "setitem (cache_max P) (cache s) flow v")
      case (Inl x)
      with Cons.prems Inr show ?thesis by simp
    next
      case c: (Inr c)
      then have ceq: "c = AList.update flow v (cache s)" by (rule setitem_Inr)
      from fk have d: "delitem (flows s) flow = Inr (AList.delete flow (flows s))"
        by (simp add: delitem_Inr)
      from Cons.prems Inr c d
      have m: "move_old P old (s\<lparr>flows := AList.delete flow (flows s), cache := c\<rparr>) = (e, s')"
        by simp
      have "k \<notin> set (keys (flows (s\<lparr>flows := AList.delete flow (flows s), cache := c\<rparr>)))"
        using Cons.prems(2) by (simp add: keys_delete)
      from Cons.IH [OF m this] ne ceq show ?thesis
        by (simp add: update_conv')
    qed
  qed
qed

lemma move_old_stored:
  "move_old P old s = (e, s') \<Longrightarrow> k \<in> set (keys (flows s)) \<Longrightarrow> k \<notin> set (keys (flows s')) \<Longrightarrow>
   k \<in> set old \<and> map_of (cache s') k = map_of (flows s) k"
proof (induction old arbitrary: s)
  case Nil
  then show ?case by simp
next
  case (Cons flow old)
  show ?case
  proof (cases "getitem (flows s) flow")
    case (Inl x)
    with Cons.prems show ?thesis by simp
  next
    case (Inr v)
    then have fk: "flow \<in> set (keys (flows s))" by (simp add: getitem_Inr map_of_in_keys)
    show ?thesis
    proof (cases "setitem (cache_max P) (cache s) flow v")
      case (Inl x)
      with Cons.prems Inr show ?thesis by simp
    next
      case c: (Inr c)
      then have ceq: "c = AList.update flow v (cache s)" by (rule setitem_Inr)
      from fk have d: "delitem (flows s) flow = Inr (AList.delete flow (flows s))"
        by (simp add: delitem_Inr)
      let ?s1 = "s\<lparr>flows := AList.delete flow (flows s), cache := c\<rparr>"
      from Cons.prems Inr c d have m: "move_old P old ?s1 = (e, s')"
        by simp
      show ?thesis
      proof (cases "k = flow")
        case True
        have "flow \<notin> set (keys (flows ?s1))" by (simp add: keys_delete)
        from move_old_untouched [OF m this] True ceq Inr show ?thesis
          by (simp add: update_conv' getitem_Inr)
      next
        case False
        with Cons.prems(2) have "k \<in> set (keys (flows ?s1))" by (simp add: keys_delete)
        from Cons.IH [OF m this Cons.prems(3)] False show ?thesis
          by (simp add: delete_conv')
      qed
    qed
  qed
qed

lemma move_old_done:
  "move_old P old s = (None, s') \<Longrightarrow> flows s' = filter (\<lambda>kv. fst kv \<notin> set old) (flows s)"
proof (induction old arbitrary: s)
  case Nil
  then show ?case by simp
next
  case (Cons flow old)
  from Cons.prems obtain v c f where
    g: "getitem (flows s) flow = Inr v" and c: "setitem (cache_max P) (cache s) flow v = Inr c"
    and d: "delitem (flows s) flow = Inr f" and m: "move_old P old (s\<lparr>flows := f, cache := c\<rparr>) = (None, s')"
    by (auto split: sum.splits)
  from d have "f = AList.delete flow (flows s)" by (simp add: delitem_Inr)
  with Cons.IH [OF m] show ?case
    by (simp add: AList.delete_eq case_prod_beta conj_commute eq_commute)
qed

lemma length_update_le: "length (AList.update k v t) \<le> Suc (length t)"
  by (induction t) auto

lemma move_old_total:
  "distinct old \<Longrightarrow> set old \<subseteq> set (keys (flows s)) \<Longrightarrow>
   length (cache s) + length old \<le> cache_max P \<Longrightarrow> \<exists>s'. move_old P old s = (None, s')"
proof (induction old arbitrary: s)
  case Nil
  then show ?case by simp
next
  case (Cons flow old)
  from Cons.prems(2) have fk: "flow \<in> set (keys (flows s))" by simp
  then obtain v where v: "map_of (flows s) flow = Some v"
    by (cases "map_of (flows s) flow") (auto simp: keys_def map_of_eq_None_iff)
  from Cons.prems(3) have c: "setitem (cache_max P) (cache s) flow v = Inr (AList.update flow v (cache s))"
    by (simp add: setitem_def)
  let ?s1 = "s\<lparr>flows := AList.delete flow (flows s), cache := AList.update flow v (cache s)\<rparr>"
  have 1: "distinct old" using Cons.prems(1) by simp
  have 2: "set old \<subseteq> set (keys (flows ?s1))" using Cons.prems(1,2) by (auto simp: keys_delete)
  have 3: "length (cache ?s1) + length old \<le> cache_max P"
    using Cons.prems(3) length_update_le [of flow v "cache s"] by simp
  have g: "getitem (flows s) flow = Inr v" using v by (simp add: getitem_Inr)
  have d: "delitem (flows s) flow = Inr (AList.delete flow (flows s))"
    using fk by (simp add: delitem_Inr)
  from Cons.IH [OF 1 2 3] show ?case
    by (simp add: g c d)
qed

section \<open>Evaluation helpers\<close>

lemmas example_simps = example_env_def idle_shard_def shard_a_def shard_b_def key_a_def key_b_def key_c_def live_a_def live_ab_def

lemma upt_two: "[0..<2] = [0, 1]"
  by (simp add: numeral_2_eq_2)

lemma key_in_filter:
  "distinct (map fst t) \<Longrightarrow> (k, v) \<in> set t \<Longrightarrow> k \<in> fst ` set (filter Q t) \<longleftrightarrow> Q (k, v)"
  by (auto simp: image_iff dest: eq_key_imp_eq_value)

section \<open>Invariants of a run\<close>

lemma move_old_known: "move_old P old s = (e, s') \<Longrightarrow> known s \<subseteq> known s'"
proof (induction old arbitrary: s)
  case Nil
  then show ?case by simp
next
  case (Cons flow old)
  show ?case
  proof (cases "getitem (flows s) flow")
    case (Inl x)
    with Cons.prems show ?thesis by simp
  next
    case (Inr v)
    show ?thesis
    proof (cases "setitem (cache_max P) (cache s) flow v")
      case (Inl x)
      with Cons.prems Inr show ?thesis by simp
    next
      case c: (Inr c)
      then have ceq: "c = AList.update flow v (cache s)" by (rule setitem_Inr)
      show ?thesis
      proof (cases "delitem (flows s) flow")
        case (Inl x)
        with Cons.prems Inr c ceq show ?thesis by (auto simp: known_def keys_update)
      next
        case f: (Inr f)
        then have feq: "f = AList.delete flow (flows s)" by (simp add: delitem_Inr)
        from Cons.prems Inr c f have "move_old P old (s\<lparr>flows := f, cache := c\<rparr>) = (e, s')"
          by simp
        from Cons.IH [OF this] ceq feq show ?thesis
          by (auto simp: known_def keys_update keys_delete)
      qed
    qed
  qed
qed

lemma move_old_distinct:
  "move_old P old s = (e, s') \<Longrightarrow> distinct (keys (cache s)) \<Longrightarrow> distinct (keys (cache s'))"
proof (induction old arbitrary: s)
  case Nil
  then show ?case by simp
next
  case (Cons flow old)
  show ?case
  proof (cases "getitem (flows s) flow")
    case (Inl x)
    with Cons.prems show ?thesis by simp
  next
    case (Inr v)
    show ?thesis
    proof (cases "setitem (cache_max P) (cache s) flow v")
      case (Inl x)
      with Cons.prems Inr show ?thesis by simp
    next
      case c: (Inr c)
      then have ceq: "c = AList.update flow v (cache s)" by (rule setitem_Inr)
      with Cons.prems(2) have dc: "distinct (keys c)" by (simp add: distinct_keys_update)
      show ?thesis
      proof (cases "delitem (flows s) flow")
        case (Inl x)
        with Cons.prems Inr c dc show ?thesis by auto
      next
        case f: (Inr f)
        from Cons.prems Inr c f have "move_old P old (s\<lparr>flows := f, cache := c\<rparr>) = (e, s')"
          by simp
        from Cons.IH [OF this] dc show ?thesis by simp
      qed
    qed
  qed
qed

lemma sweep_flows_known: "sweep_flows P now offset agg s = (e, s') \<Longrightarrow> known s \<subseteq> known s'"
  by (auto simp: sweep_flows_def split: sum.splits dest: move_old_known)

lemma sweep_flows_distinct:
  "sweep_flows P now offset agg s = (e, s') \<Longrightarrow> distinct (keys (cache s)) \<Longrightarrow> distinct (keys (cache s'))"
  by (auto simp: sweep_flows_def split: sum.splits dest: move_old_distinct)

lemma foldl_update_keys:
  "set (keys t) \<subseteq> set (keys (foldl (\<lambda>t (k, v). AList.update k v t) t ws))"
proof (induction ws arbitrary: t)
  case Nil
  then show ?case by simp
next
  case (Cons w ws)
  obtain k v where w: "w = (k, v)" by (cases w)
  have "set (keys t) \<subseteq> set (keys (AList.update k v t))" by (auto simp: keys_update)
  with Cons [of "AList.update k v t"] w show ?case by auto
qed

lemma classify_known: "known s \<subseteq> known (classify ws s)"
  using foldl_update_keys [of "flows s" ws] by (auto simp: known_def classify_def)

lemma classify_cache: "cache (classify ws s) = cache s"
  by (simp add: classify_def)

lemma classify_Nil: "classify [] s = s"
  by (simp add: classify_def)

lemma cache_rest_flows: "cache_rest P t s = (e, s') \<Longrightarrow> flows s' = flows s"
  by (induction t arbitrary: s) (auto split: sum.splits)

lemma cache_rest_keys:
  "cache_rest P t s = (e, s') \<Longrightarrow> set (keys (cache s)) \<subseteq> set (keys (cache s'))"
proof (induction t arbitrary: s)
  case Nil
  then show ?case by simp
next
  case (Cons kv t)
  obtain k v where kv: "kv = (k, v)" by (cases kv)
  show ?case
  proof (cases "setitem (cache_max P) (cache s) k v")
    case (Inl x)
    with Cons.prems kv show ?thesis by simp
  next
    case (Inr c)
    then have ceq: "c = AList.update k v (cache s)" by (rule setitem_Inr)
    from Cons.prems kv Inr have "cache_rest P t (s\<lparr>cache := c\<rparr>) = (e, s')" by simp
    from Cons.IH [OF this] ceq show ?thesis by (auto simp: keys_update)
  qed
qed

lemma cache_rest_all:
  "cache_rest P t s = (None, s') \<Longrightarrow> fst ` set t \<subseteq> set (keys (cache s'))"
proof (induction t arbitrary: s)
  case Nil
  then show ?case by simp
next
  case (Cons kv t)
  obtain k v where kv: "kv = (k, v)" by (cases kv)
  from Cons.prems kv obtain c where c: "setitem (cache_max P) (cache s) k v = Inr c"
    and r: "cache_rest P t (s\<lparr>cache := c\<rparr>) = (None, s')"
    by (auto split: sum.splits)
  from c have "c = AList.update k v (cache s)" by (rule setitem_Inr)
  then have "k \<in> set (keys (cache (s\<lparr>cache := c\<rparr>)))" by (simp add: keys_update)
  with cache_rest_keys [OF r] Cons.IH [OF r] kv show ?case by auto
qed

lemma cache_rest_distinct:
  "cache_rest P t s = (e, s') \<Longrightarrow> distinct (keys (cache s)) \<Longrightarrow> distinct (keys (cache s'))"
proof (induction t arbitrary: s)
  case Nil
  then show ?case by simp
next
  case (Cons kv t)
  obtain k v where kv: "kv = (k, v)" by (cases kv)
  show ?case
  proof (cases "setitem (cache_max P) (cache s) k v")
    case (Inl x)
    with Cons.prems kv show ?thesis by simp
  next
    case (Inr c)
    then have ceq: "c = AList.update k v (cache s)" by (rule setitem_Inr)
    from Cons.prems kv Inr have r: "cache_rest P t (s\<lparr>cache := c\<rparr>) = (e, s')" by simp
    from Cons.prems(2) ceq have "distinct (keys (cache (s\<lparr>cache := c\<rparr>)))"
      by (simp add: distinct_keys_update)
    from Cons.IH [OF r this] show ?thesis .
  qed
qed

lemma drain_complete:
  assumes "drain P now offset late s = (None, s2)"
  shows "known s \<subseteq> set (keys (cache s2))"
    and "set (keys (flows s2)) \<subseteq> set (keys (cache s2))"
    and "distinct (keys (cache s)) \<Longrightarrow> distinct (keys (cache s2))"
proof -
  from assms obtain s1 where sw: "sweep_flows P now offset 0 s = (None, s1)"
    and cr: "cache_rest P (items (flows (classify late s1))) (classify late s1) = (None, s2)"
    by (auto simp: drain_def split: prod.splits option.splits)
  have f2: "flows s2 = flows (classify late s1)" using cache_rest_flows [OF cr] .
  have a: "set (keys (flows (classify late s1))) \<subseteq> set (keys (cache s2))"
    using cache_rest_all [OF cr] by (simp add: items_def keys_def)
  have b: "set (keys (cache (classify late s1))) \<subseteq> set (keys (cache s2))"
    using cache_rest_keys [OF cr] .
  from a b have "known (classify late s1) \<subseteq> set (keys (cache s2))" by (simp add: known_def)
  with sweep_flows_known [OF sw] classify_known [of s1 late]
  show "known s \<subseteq> set (keys (cache s2))" by blast
  from a f2 show "set (keys (flows s2)) \<subseteq> set (keys (cache s2))" by simp
  assume "distinct (keys (cache s))"
  with sweep_flows_distinct [OF sw] have "distinct (keys (cache (classify late s1)))"
    by (simp add: classify_cache)
  with cache_rest_distinct [OF cr] show "distinct (keys (cache s2))" by simp
qed

lemma collect_head: "collect P offset agg evs s = (e, s', h) \<Longrightarrow> s \<in> set h"
proof (cases evs)
  case Nil
  assume "collect P offset agg evs s = (e, s', h)"
  with Nil show ?thesis by auto
next
  case (Cons ev evs')
  assume "collect P offset agg evs s = (e, s', h)"
  with Cons show ?thesis
    by (cases ev) (auto split: prod.splits option.splits)
qed

lemma collect_invariant:
  "collect P offset agg evs s = (e, s', h) \<Longrightarrow>
   (\<forall>x \<in> set h. known x \<subseteq> known s') \<and> (distinct (keys (cache s)) \<longrightarrow> distinct (keys (cache s')))"
proof (induction evs arbitrary: s e s' h)
  case Nil
  then show ?case by auto
next
  case (Cons ev evs)
  show ?case
  proof (cases ev)
    case (Packets k v)
    with Cons.prems obtain h' where c: "collect P offset agg evs (classify [(k, v)] s) = (e, s', h')"
      and h: "h = s # h'"
      by (auto split: prod.splits)
    from Cons.IH [OF c] have ih: "\<forall>x \<in> set h'. known x \<subseteq> known s'"
      and d: "distinct (keys (cache s)) \<longrightarrow> distinct (keys (cache s'))"
      by (simp_all add: classify_cache)
    from c have "classify [(k, v)] s \<in> set h'" by (rule collect_head)
    with ih classify_known [of s "[(k, v)]"] have "known s \<subseteq> known s'" by blast
    with ih d h show ?thesis by simp
  next
    case (Sweep now)
    show ?thesis
    proof (cases "sweep_flows P now offset agg s")
      case (Pair e1 s1)
      note sw = this
      show ?thesis
      proof (cases e1)
        case (Some x)
        with Cons.prems Sweep sw have "s' = s1" "h = [s, s1]" by auto
        with sweep_flows_known [OF sw] sweep_flows_distinct [OF sw] show ?thesis by simp
      next
        case None
        with Cons.prems Sweep sw obtain h' where c: "collect P offset agg evs s1 = (e, s', h')"
          and h: "h = s # h'"
          by (auto split: prod.splits)
        from Cons.IH [OF c] have ih: "\<forall>x \<in> set h'. known x \<subseteq> known s'"
          and d: "distinct (keys (cache s1)) \<longrightarrow> distinct (keys (cache s'))"
          by simp_all
        from c have "s1 \<in> set h'" by (rule collect_head)
        with ih sweep_flows_known [OF sw] have "known s \<subseteq> known s'" by blast
        with ih d h sweep_flows_distinct [OF sw] show ?thesis by auto
      qed
    qed
  qed
qed

lemma count_list_distinct: "distinct xs \<Longrightarrow> x \<in> set xs \<Longrightarrow> count_list xs x = 1"
  by (induction xs) auto

lemma collection_loop_plain:
  "collection_loop P offset agg evs WindowEnd s = collect P offset agg evs s"
  "collection_loop P offset agg evs Interrupt s = collect P offset agg evs s"
  by (auto simp: collection_loop_def split: prod.splits option.splits)

lemma interrupted_sweep_invariant:
  assumes "interrupted_sweep P now offset agg n stored s = (e, s')"
  shows "known s \<subseteq> known s'"
    and "distinct (keys (cache s)) \<Longrightarrow> distinct (keys (cache s'))"
proof -
  show "known s \<subseteq> known s'"
  proof (cases "find_old P now offset agg (items (flows s)) []")
    case (Inl x)
    with assms show ?thesis by (simp add: interrupted_sweep_def)
  next
    case (Inr old)
    obtain e1 s1 where m: "move_old P (take n old) s = (e1, s1)"
      by (cases "move_old P (take n old) s")
    note k1 = move_old_known [OF m]
    show ?thesis
    proof (cases e1)
      case (Some x)
      with assms Inr m k1 show ?thesis by (simp add: interrupted_sweep_def)
    next
      case None
      show ?thesis
      proof (cases "stored \<and> n < length old")
        case False
        with assms Inr m None k1 show ?thesis by (auto simp: interrupted_sweep_def)
      next
        case True
        show ?thesis
        proof (cases "getitem (flows s1) (old ! n)")
          case (Inl x)
          with assms Inr m None True k1 show ?thesis by (auto simp: interrupted_sweep_def)
        next
          case g: (Inr v)
          show ?thesis
          proof (cases "setitem (cache_max P) (cache s1) (old ! n) v")
            case (Inl x)
            with assms Inr m None True g k1 show ?thesis by (auto simp: interrupted_sweep_def)
          next
            case c: (Inr c)
            then have "c = AList.update (old ! n) v (cache s1)" by (rule setitem_Inr)
            moreover from assms Inr m None True g c have "s' = s1\<lparr>cache := c\<rparr>"
              by (auto simp: interrupted_sweep_def)
            ultimately have "known s1 \<subseteq> known s'" by (auto simp: known_def keys_update)
            with k1 show ?thesis by blast
          qed
        qed
      qed
    qed
  qed
  assume d: "distinct (keys (cache s))"
  show "distinct (keys (cache s'))"
  proof (cases "find_old P now offset agg (items (flows s)) []")
    case (Inl x)
    with assms d show ?thesis by (simp add: interrupted_sweep_def)
  next
    case (Inr old)
    obtain e1 s1 where m: "move_old P (take n old) s = (e1, s1)"
      by (cases "move_old P (take n old) s")
    note d1 = move_old_distinct [OF m d]
    show ?thesis
    proof (cases e1)
      case (Some x)
      with assms Inr m d1 show ?thesis by (simp add: interrupted_sweep_def)
    next
      case None
      show ?thesis
      proof (cases "stored \<and> n < length old")
        case False
        with assms Inr m None d1 show ?thesis by (auto simp: interrupted_sweep_def)
      next
        case True
        show ?thesis
        proof (cases "getitem (flows s1) (old ! n)")
          case (Inl x)
          with assms Inr m None True d1 show ?thesis by (auto simp: interrupted_sweep_def)
        next
          case g: (Inr v)
          show ?thesis
          proof (cases "setitem (cache_max P) (cache s1) (old ! n) v")
            case (Inl x)
            with assms Inr m None True g d1 show ?thesis by (auto simp: interrupted_sweep_def)
          next
            case c: (Inr c)
            then have "c = AList.update (old ! n) v (cache s1)" by (rule setitem_Inr)
            moreover from assms Inr m None True g c have "s' = s1\<lparr>cache := c\<rparr>"
              by (auto simp: interrupted_sweep_def)
            ultimately show ?thesis using d1 by (simp add: distinct_keys_update)
          qed
        qed
      qed
    qed
  qed
qed

lemma collection_loop_invariant:
  assumes "collection_loop P offset agg evs stop s = (e, s', h)"
  shows "\<forall>x \<in> set h. known x \<subseteq> known s'"
    and "distinct (keys (cache s)) \<Longrightarrow> distinct (keys (cache s'))"
proof -
  obtain e1 s1 h1 where c: "collect P offset agg evs s = (e1, s1, h1)"
    by (cases "collect P offset agg evs s")
  note inv = collect_invariant [OF c]
  have "(\<forall>x \<in> set h. known x \<subseteq> known s') \<and>
        (distinct (keys (cache s)) \<longrightarrow> distinct (keys (cache s')))"
  proof (cases "e1 = None \<and> (\<exists>now n stored. stop = Interrupt_in_sweep now n stored)")
    case False
    with assms c have "s' = s1" "h = h1"
      by (auto simp: collection_loop_def split: option.splits stop.splits)
    with inv show ?thesis by simp
  next
    case True
    then obtain now n stored where st: "stop = Interrupt_in_sweep now n stored" and e1: "e1 = None"
      by blast
    from assms c st e1 have i: "interrupted_sweep P now offset agg n stored s1 = (e, s')"
      and h: "h = h1 @ [s']"
      by (auto simp: collection_loop_def split: prod.splits)
    from interrupted_sweep_invariant [OF i] inv h show ?thesis by auto
  qed
  then show "\<forall>x \<in> set h. known x \<subseteq> known s'"
    and "distinct (keys (cache s)) \<Longrightarrow> distinct (keys (cache s'))" by simp_all
qed

lemma main_reached:
  assumes "collection_loop P offset agg_time evs stop s0 = (None, s1, h)"
    and "drain P now offset (if interrupted stop then [] else late) s1 = (None, s2)"
  shows "visited (main P offset agg_time evs stop now late open_ok s0) = h @ [s2]"
    and "cold (main P offset agg_time evs stop now late open_ok s0) = Some (cache s2)"
    and "raised (main P offset agg_time evs stop now late open_ok s0) = fst (report P offset open_ok (cache s2))"
    and "effects (main P offset agg_time evs stop now late open_ok s0) =
           (if interrupted stop then [Remove_xdp] else []) @ snd (report P offset open_ok (cache s2))"
  using assms by (simp_all add: main_def split: prod.splits)

lemma main_cold:
  assumes "cold (main P offset agg_time evs stop now late open_ok s0) = Some c"
  shows "\<exists>s1 h s2. collection_loop P offset agg_time evs stop s0 = (None, s1, h) \<and>
           drain P now offset (if interrupted stop then [] else late) s1 = (None, s2) \<and>
           c = cache s2"
  using assms by (auto simp: main_def split: prod.splits option.splits)

lemma key_a_neq_b: "key_a \<noteq> key_b" "key_b \<noteq> key_a"
  by (simp_all add: key_a_def key_b_def)

lemma example_idle:
  "idle_time example_env now offset 5000000000 = now - (5 + offset)"
  "idle_time example_env now offset 4000000000 = now - (4 + offset)"
  by (simp_all add: idle_time_def to_unix_def example_env_def)

lemma example_stamps:
  "recent_stamp [idle_shard, shard_a] [0..<CPU_COUNT example_env] 0 = Inr 5000000000"
  "recent_stamp [shard_b, idle_shard] [0..<CPU_COUNT example_env] 0 = Inr 4000000000"
  by (simp_all add: example_env_def upt_two idle_shard_def shard_a_def shard_b_def)

lemma example_sweep_165: "sweep_flows example_env 165 100 60 live_ab = (None, swept_b)"
proof -
  have f: "find_old example_env 165 100 60 (items (flows live_ab)) [] = Inr [key_b]"
    by (simp add: items_def live_ab_def example_stamps example_idle)
  have m: "move_old example_env [key_b] live_ab = (None, swept_b)"
    using key_a_neq_b
    by (simp add: live_ab_def swept_b_def getitem_def setitem_def delitem_def keys_def example_env_def)
  show ?thesis by (simp only: sweep_flows_def f sum.case m)
qed

lemma example_collect:
  "collect example_env 100 60 example_run no_flows =
     (None, swept_b, [no_flows, live_a, live_ab, swept_b])"
proof -
  have 1: "classify [(key_a, [idle_shard, shard_a])] no_flows = live_a"
    by (simp add: classify_def no_flows_def live_a_def)
  have 2: "classify [(key_b, [shard_b, idle_shard])] live_a = live_ab"
    using key_a_neq_b by (simp add: classify_def live_a_def live_ab_def)
  show ?thesis
    by (simp add: example_run_def 1 2 example_sweep_165)
qed

lemma example_loop:
  "collection_loop example_env 100 60 example_run WindowEnd no_flows =
     (None, swept_b, [no_flows, live_a, live_ab, swept_b])"
  "collection_loop example_env 100 60 example_run Interrupt no_flows =
     (None, swept_b, [no_flows, live_a, live_ab, swept_b])"
  by (simp_all add: collection_loop_plain example_collect)

lemma example_half_loop:
  "collection_loop example_env 100 60 example_writes (Interrupt_in_sweep 165 0 True) no_flows =
     (None, half_moved_b, [no_flows, live_a, live_ab, half_moved_b])"
proof -
  have 1: "classify [(key_a, [idle_shard, shard_a])] no_flows = live_a"
    by (simp add: classify_def no_flows_def live_a_def)
  have 2: "classify [(key_b, [shard_b, idle_shard])] live_a = live_ab"
    using key_a_neq_b by (simp add: classify_def live_a_def live_ab_def)
  have c: "collect example_env 100 60 example_writes no_flows = (None, live_ab, [no_flows, live_a, live_ab])"
    by (simp add: example_writes_def 1 2)
  have f: "find_old example_env 165 100 60 (items (flows live_ab)) [] = Inr [key_b]"
    by (simp add: items_def live_ab_def example_stamps example_idle)
  have g: "getitem (flows live_ab) key_b = Inr [shard_b, idle_shard]"
    using key_a_neq_b by (simp add: getitem_def live_ab_def)
  have s: "setitem (cache_max example_env) (cache live_ab) key_b [shard_b, idle_shard] =
             Inr [(key_b, [shard_b, idle_shard])]"
    by (simp add: setitem_def live_ab_def keys_def example_env_def)
  have i: "interrupted_sweep example_env 165 100 60 0 True live_ab = (None, half_moved_b)"
    by (simp add: interrupted_sweep_def f g s) (simp add: live_ab_def half_moved_b_def)
  show ?thesis by (simp add: collection_loop_def c i)
qed

lemma example_half_drain: "drain example_env 170 100 [] half_moved_b = (None, drained_ab)"
proof -
  have f: "find_old example_env 170 100 0 (items (flows half_moved_b)) [] = Inr [key_a, key_b]"
    by (simp add: items_def half_moved_b_def example_stamps example_idle)
  have m: "move_old example_env [key_a, key_b] half_moved_b = (None, drained_ab)"
    using key_a_neq_b
    by (simp add: half_moved_b_def drained_ab_def getitem_def setitem_def delitem_def keys_def example_env_def)
  have s: "sweep_flows example_env 170 100 0 half_moved_b = (None, drained_ab)"
    by (simp only: sweep_flows_def f sum.case m)
  show ?thesis
    by (simp add: drain_def s classify_Nil) (simp add: drained_ab_def items_def)
qed

lemma example_drain_170: "drain example_env 170 100 [] swept_b = (None, drained_ab)"
proof -
  have f: "find_old example_env 170 100 0 (items (flows swept_b)) [] = Inr [key_a]"
    by (simp add: items_def swept_b_def example_stamps example_idle)
  have m: "move_old example_env [key_a] swept_b = (None, drained_ab)"
    using key_a_neq_b
    by (simp add: swept_b_def drained_ab_def getitem_def setitem_def delitem_def keys_def example_env_def)
  have s: "sweep_flows example_env 170 100 0 swept_b = (None, drained_ab)"
    by (simp only: sweep_flows_def f sum.case m)
  show ?thesis
    by (simp add: drain_def s classify_Nil) (simp add: drained_ab_def items_def)
qed

lemma example_idle_seconds:
  "idle_seconds example_env now offset [idle_shard, shard_a] = now - (5 + offset)"
  "idle_seconds example_env now offset [shard_b, idle_shard] = now - (4 + offset)"
  by (simp_all add: idle_seconds_def latest_end_def example_env_def idle_shard_def shard_a_def shard_b_def)

lemma filter_all: "\<forall>x \<in> set xs. Q x \<Longrightarrow> filter Q xs = xs"
  by (induction xs) auto

section \<open>The report compiler: merging and rows\<close>

lemma merge_accms_error:
  "\<not> list_all (\<lambda>j. j < length all_j) js \<Longrightarrow> merge_accms all_j js acc = Inl IndexError"
proof (induction js arbitrary: acc)
  case Nil
  then show ?case by simp
next
  case (Cons j js)
  obtain np nb st en where "acc = (np, nb, st, en)" by (cases acc)
  with Cons show ?case by (auto simp: Let_def)
qed

lemma fold_min_list: "fold (\<lambda>x m. min m x) xs (m0::int) = Min (set (m0 # xs))"
proof (induction xs arbitrary: m0)
  case Nil
  then show ?case by simp
next
  case (Cons x xs)
  have "Min (set (m0 # x # xs)) = Min (insert m0 (insert x (set xs)))" by simp
  also have "\<dots> = Min (insert (min m0 x) (set xs))"
    by (cases "xs = []") (simp_all add: min.assoc)
  finally show ?case using Cons by simp
qed

lemma fold_max_list: "fold (\<lambda>x m. max m x) xs (m0::int) = Max (set (m0 # xs))"
proof (induction xs arbitrary: m0)
  case Nil
  then show ?case by simp
next
  case (Cons x xs)
  have "Max (set (m0 # x # xs)) = Max (insert m0 (insert x (set xs)))" by simp
  also have "\<dots> = Max (insert (max m0 x) (set xs))"
    by (cases "xs = []") (simp_all add: max.assoc)
  finally show ?case using Cons by simp
qed

lemma merge_accms_started:
  "list_all (\<lambda>j. j < length all_j) js \<Longrightarrow> 0 \<le> st \<Longrightarrow>
   merge_accms all_j js (np, nb, st, en) =
     Inr (np + sum_list (map (\<lambda>j. uint (packets (all_j ! j))) js),
          nb + sum_list (map (\<lambda>j. uint (bytes (all_j ! j))) js),
          fold (\<lambda>x m. min m x) (map (\<lambda>j. uint (start (all_j ! j))) js) st,
          fold (\<lambda>x m. max m x) (map (\<lambda>j. uint (end_ns (all_j ! j))) js) en)"
proof (induction js arbitrary: np nb st en)
  case Nil
  then show ?case by simp
next
  case (Cons j js)
  from Cons.prems have j: "j < length all_j" and js: "list_all (\<lambda>j. j < length all_j) js"
    by simp_all
  from Cons.prems(2) have ne: "st \<noteq> - 1" by simp
  have p: "0 \<le> min st (uint (start (all_j ! j)))" using Cons.prems(2) by simp
  show ?case
    using j ne Cons.IH [OF js p] by (simp add: Let_def add.assoc)
qed

lemma map_nth_take: "n \<le> length xs \<Longrightarrow> map (\<lambda>j. f (xs ! j)) [0..<n] = map f (take n xs)"
  by (simp add: list_eq_iff_nth_eq)

lemma merge_accms_first:
  assumes "0 < n" and "n \<le> length all_j"
  shows "merge_accms all_j [0..<n] (0, 0, - 1, - 1) =
           Inr (total_packets (take n all_j), total_bytes (take n all_j),
                min_start (take n all_j), max_end (take n all_j))"
proof -
  from assms have u: "[0..<n] = 0 # [1..<n]" by (simp add: upt_conv_Cons)
  have all: "list_all (\<lambda>j. j < length all_j) [1..<n]"
    using assms(2) by (simp add: list_all_iff)
  have 0: "0 < length all_j" using assms by linarith
  let ?f = "\<lambda>g. map (\<lambda>j. uint (g (all_j ! j)))"
  have m: "?f g [0..<n] = uint (g (all_j ! 0)) # ?f g [1..<n]" for g
    by (simp add: u)
  have t: "?f g [0..<n] = map (\<lambda>a. uint (g a)) (take n all_j)" for g
    using map_nth_take [OF assms(2), of "\<lambda>a. uint (g a)"] by simp
  have "merge_accms all_j [0..<n] (0, 0, - 1, - 1) =
      merge_accms all_j [1..<n] (uint (packets (all_j ! 0)), uint (bytes (all_j ! 0)),
        uint (start (all_j ! 0)), uint (end_ns (all_j ! 0)))"
    using 0 by (simp add: u Let_def)
  also have "\<dots> = Inr (sum_list (?f packets [0..<n]), sum_list (?f bytes [0..<n]),
       Min (set (?f start [0..<n])), Max (set (?f end_ns [0..<n])))"
    by (subst merge_accms_started [OF all]) (simp_all add: m fold_min_list fold_max_list)
  finally show ?thesis
    by (simp only: t total_packets_def total_bytes_def min_start_def max_end_def)
qed

lemma merge_accms_sums:
  "list_all (\<lambda>j. j < length all_j) js \<Longrightarrow>
   \<exists>st' en'. merge_accms all_j js (np, nb, st, en) =
     Inr (np + sum_list (map (\<lambda>j. uint (packets (all_j ! j))) js),
          nb + sum_list (map (\<lambda>j. uint (bytes (all_j ! j))) js), st', en')"
proof (induction js arbitrary: np nb st en)
  case Nil
  then show ?case by simp
next
  case (Cons j js)
  from Cons.prems have j: "j < length all_j" and js: "list_all (\<lambda>j. j < length all_j) js"
    by simp_all
  let ?np = "np + uint (packets (all_j ! j))" and ?nb = "nb + uint (bytes (all_j ! j))"
  show ?case
  proof (cases "st = - 1")
    case True
    from Cons.IH [OF js, of ?np ?nb "uint (start (all_j ! j))" "uint (end_ns (all_j ! j))"]
    show ?thesis using j True by (simp add: Let_def add.assoc)
  next
    case False
    from Cons.IH [OF js, of ?np ?nb "min st (uint (start (all_j ! j)))" "max en (uint (end_ns (all_j ! j)))"]
    show ?thesis using j False by (simp add: Let_def add.assoc)
  qed
qed

lemma merge_accms_totals:
  assumes "n \<le> length all_j"
  shows "\<exists>st en. merge_accms all_j [0..<n] (0, 0, - 1, - 1) =
           Inr (total_packets (take n all_j), total_bytes (take n all_j), st, en)"
proof -
  have all: "list_all (\<lambda>j. j < length all_j) [0..<n]"
    using assms by (simp add: list_all_iff)
  have p: "map (\<lambda>j. uint (packets (all_j ! j))) [0..<n] = map (\<lambda>a. uint (packets a)) (take n all_j)"
    using map_nth_take [OF assms, of "\<lambda>a. uint (packets a)"] .
  have b: "map (\<lambda>j. uint (bytes (all_j ! j))) [0..<n] = map (\<lambda>a. uint (bytes a)) (take n all_j)"
    using map_nth_take [OF assms, of "\<lambda>a. uint (bytes a)"] .
  from merge_accms_sums [OF all, of 0 0 "- 1" "- 1"] show ?thesis
    by (simp add: total_packets_def total_bytes_def p b)
qed

lemma example_ntoh:
  "ntohs 0x3500 = 53" "ntohs 0x5000 = 80" "ntohs 0xBB01 = 443"
  "ntohl 0x0100007F = 0x7F000001" "ntohl 0x0200A8C0 = 0xC0A80002"
  by (simp_all add: ntohs_def ntohl_def)

lemma example_ip:
  "ip_address 0x7F000001 = ''127.0.0.1''" "ip_address 0xC0A80002 = ''192.168.0.2''"
  by (simp_all add: ip_address_def str_nat_def digits.simps digit_char_def)

lemma example_merge:
  "merge_accms [shard_a, shard_a] [0..<CPU_COUNT example_env] (0, 0, - 1, - 1) = Inr (2, 120, 3000000000, 5000000000)"
  "merge_accms [shard_b, shard_b] [0..<CPU_COUNT example_env] (0, 0, - 1, - 1) = Inr (4, 240, 2000000000, 4000000000)"
  "merge_accms [idle_shard, shard_a] [0..<CPU_COUNT example_env] (0, 0, - 1, - 1) = Inr (1, 60, 0, 5000000000)"
  by (simp_all add: example_env_def upt_two shard_a_def shard_b_def idle_shard_def)

lemma example_to_unix:
  "to_unix example_env 100 3000000000 = 103" "to_unix example_env 100 5000000000 = 105"
  "to_unix example_env 100 2000000000 = 102" "to_unix example_env 100 4000000000 = 104"
  by (simp_all add: to_unix_def example_env_def)

lemma example_float_str:
  "float_str example_env 102 = ''102.0''" "float_str example_env 103 = ''103.0''"
  "float_str example_env 104 = ''104.0''" "float_str example_env 105 = ''105.0''"
  by (simp_all add: example_env_def example_str_def str_int_def str_nat_def digits.simps digit_char_def)

lemma example_flow_row:
  "flow_row example_env 100 (key_a, [shard_a, shard_a]) = Inr row_a"
  "flow_row example_env 100 (key_b, [shard_b, shard_b]) = Inr row_b"
  "flow_row example_env 100 (key_c, [shard_b, shard_b]) = Inr row_b"
    apply (simp_all add: flow_row_def row_of_def example_merge example_to_unix)
    apply (simp_all add: addr_columns_def key_a_def key_b_def key_c_def example_ntoh example_ip
      format_row_def example_float_str row_a_def row_b_def)
  apply (simp_all add: example_to_unix example_float_str)
  apply (simp_all add: str_int_def str_nat_def hex_def digits.simps digit_char_def)
  done

lemma set_add_set: "set (set_add x fs) = insert x (set fs)"
  by (auto simp: set_add_def)

lemma set_add_distinct: "distinct fs \<Longrightarrow> distinct (set_add x fs)"
  by (simp add: set_add_def)

lemma compile_rows_Inr:
  "compile_rows P offset t fs = Inr rows \<Longrightarrow>
   set rows = set fs \<union> {x. \<exists>kv \<in> set t. flow_row P offset kv = Inr x} \<and>
   (\<forall>kv \<in> set t. \<exists>x. flow_row P offset kv = Inr x) \<and>
   (distinct fs \<longrightarrow> distinct rows)"
proof (induction t arbitrary: fs)
  case Nil
  then show ?case by auto
next
  case (Cons kv t)
  from Cons.prems obtain x where x: "flow_row P offset kv = Inr x"
    and c: "compile_rows P offset t (set_add x fs) = Inr rows"
    by (auto split: sum.splits)
  from Cons.IH [OF c] x show ?case
    by (auto simp: set_add_set set_add_distinct)
qed

lemma compile_rows_Inl:
  "compile_rows P offset t fs = Inl e \<Longrightarrow> \<exists>kv \<in> set t. flow_row P offset kv = Inl e"
proof (induction t arbitrary: fs)
  case Nil
  then show ?case by simp
next
  case (Cons kv t)
  show ?case
  proof (cases "flow_row P offset kv")
    case (Inl x)
    with Cons.prems show ?thesis by simp
  next
    case (Inr x)
    with Cons.prems have "compile_rows P offset t (set_add x fs) = Inl e" by simp
    from Cons.IH [OF this] show ?thesis by auto
  qed
qed

lemma written_Write: "written (map Write xs) = xs"
  by (induction xs) auto

lemma report_None:
  assumes "report P offset open_ok c = (None, fx)"
  shows "\<exists>flow_set. compile_rows P offset (items c) [] = Inr flow_set \<and>
           fx = [Open_w, Remove_xdp] @ map Write (header #
                  sort_key (\<lambda>x. the (float_of_str P (leading x))) (set_iter P flow_set))"
  using assms by (auto simp: report_def sort_rows_def split: if_splits sum.splits)

lemma leading_format_row: "CHR '','' \<in> set (format_row P r)"
  by (simp add: format_row_def)

lemma max_end_recorded:
  assumes "recorded accms \<noteq> []" and "\<forall>a \<in> set accms. packets a = 0 \<longrightarrow> end_ns a = 0"
  shows "max_end accms = latest_end_ns accms"
proof -
  let ?e = "\<lambda>a. uint (end_ns a)"
  let ?R = "?e ` set (recorded accms)" and ?A = "?e ` set accms"
  have sub: "?R \<subseteq> ?A" by (auto simp: recorded_def)
  have ne: "?R \<noteq> {}" using assms(1) by simp
  have fin: "finite ?R" by simp
  have "Max ?R \<le> Max ?A" using sub ne by (intro Max_mono) auto
  moreover have "Max ?A \<le> Max ?R"
  proof (rule Max.boundedI)
    show "finite ?A" by simp
    show "?A \<noteq> {}" using sub ne by auto
    fix x assume "x \<in> ?A"
    then obtain a where a: "a \<in> set accms" and x: "x = ?e a" by auto
    show "x \<le> Max ?R"
    proof (cases "packets a = 0")
      case True
      with assms(2) a x have "x = 0" by simp
      moreover from assms(1) obtain b where "b \<in> set (recorded accms)"
        by (cases "recorded accms") auto
      then obtain y where y: "y \<in> ?R" by blast
      then have "0 \<le> y" by auto
      moreover from y have "y \<le> Max ?R" by (intro Max_ge) auto
      ultimately show ?thesis by simp
    next
      case False
      with a x have "x \<in> ?R" by (auto simp: recorded_def)
      then show ?thesis by (intro Max_ge) auto
    qed
  qed
  ultimately show ?thesis by (simp add: max_end_def latest_end_ns_def)
qed

lemma row_of_totals:
  assumes "row_of P offset (k, accms) = Inr r" and "length accms = CPU_COUNT P"
  shows "col_n_packets r = total_packets accms" and "col_n_bytes r = total_bytes accms"
proof -
  have "CPU_COUNT P \<le> length accms" using assms(2) by simp
  from merge_accms_totals [OF this] assms(2) obtain st en where
    "merge_accms accms [0..<CPU_COUNT P] (0, 0, - 1, - 1) =
       Inr (total_packets accms, total_bytes accms, st, en)" by auto
  with assms(1) show "col_n_packets r = total_packets accms" and "col_n_bytes r = total_bytes accms"
    by (auto simp: row_of_def split: sum.splits prod.splits)
qed

lemma example_compile: "compile_rows example_env 100 (items final_cache) [] = Inr [row_a, row_b]"
  by (simp add: items_def final_cache_def example_flow_row set_add_def row_a_def row_b_def)

section \<open>The report and the exit paths\<close>

lemma example_keys:
  "float_of_str example_env (leading row_a) = Some 103"
  "float_of_str example_env (leading row_b) = Some 102"
  by (simp_all add: example_env_def leading_def row_a_def row_b_def example_float_def nat_of_digits_def)

lemma example_sort: "sort_rows example_env [row_a, row_b] = Inr [row_b, row_a]"
proof -
  have i: "set_iter example_env [row_a, row_b] = [row_a, row_b]" by (simp add: example_env_def)
  show ?thesis by (simp add: sort_rows_def i example_keys)
qed

lemma example_report:
  "report example_env 100 True final_cache =
     (None, [Open_w, Remove_xdp, Write header, Write row_b, Write row_a])"
  by (simp add: report_def example_compile example_sort)

lemma report_detaches_once:
  "length (filter (\<lambda>x. x = Remove_xdp) (snd (report P offset open_ok c))) = 1"
  by (simp add: report_def split: sum.splits)

lemma report_detaches_first:
  "written (takeWhile (\<lambda>x. x \<noteq> Remove_xdp) (snd (report P offset open_ok c))) = []"
  by (simp add: report_def split: sum.splits)

lemma example_vlan_collect:
  "collect example_env 100 60 vlan_run no_flows = (None, live_v, [no_flows, live_v])"
proof -
  have "classify [(key_v, [shard_a, shard_a])] no_flows = live_v"
    by (simp add: classify_def no_flows_def live_v_def)
  then show ?thesis by (simp add: vlan_run_def)
qed

lemma example_vlan_loop:
  "collection_loop example_env 100 60 vlan_run Interrupt no_flows = (None, live_v, [no_flows, live_v])"
  by (simp add: collection_loop_plain example_vlan_collect)

lemma example_vlan_drain: "drain example_env 170 100 [] live_v = (None, drained_v)"
proof -
  have r: "recent_stamp [shard_a, shard_a] [0..<CPU_COUNT example_env] 0 = Inr 5000000000"
    by (simp add: example_env_def upt_two shard_a_def)
  have f: "find_old example_env 170 100 0 (items (flows live_v)) [] = Inr [key_v]"
    by (simp add: items_def live_v_def r example_idle)
  have m: "move_old example_env [key_v] live_v = (None, drained_v)"
    by (simp add: live_v_def drained_v_def getitem_def setitem_def delitem_def keys_def example_env_def)
  have s: "sweep_flows example_env 170 100 0 live_v = (None, drained_v)"
    by (simp only: sweep_flows_def f sum.case m)
  show ?thesis
    by (simp add: drain_def s classify_Nil) (simp add: drained_v_def items_def)
qed

lemma example_vlan_report:
  "report example_env 100 True (cache drained_v) = (Some AttributeError, [Open_w, Remove_xdp])"
proof -
  have "flow_row example_env 100 (key_v, [shard_a, shard_a]) = Inl AttributeError"
    by (simp add: flow_row_def row_of_def example_merge addr_columns_def key_v_def)
  then show ?thesis by (simp add: report_def items_def drained_v_def)
qed

section \<open>The claims\<close>

subsection \<open>C1\<close>

text \<open>
  C1. Once the drain (the forced sweep and the transfer loop) is complete, every key that
  was in the live table in any state of the run, from the start of the collection loop to
  the end of the drain, is in the final cache exactly once: no observed flow is lost and
  none has two cache entries. The cache the run starts with holds each key once.
\<close>

theorem every_flow_cached_once:
  assumes "cold (main P offset agg_time evs stop now late open_ok s0) = Some c"
    and "distinct (keys (cache s0))"
  shows "\<forall>s \<in> set (visited (main P offset agg_time evs stop now late open_ok s0)).
           \<forall>k \<in> set (keys (flows s)). count_list (keys c) k = 1"
proof (intro ballI)
  fix s k
  assume s: "s \<in> set (visited (main P offset agg_time evs stop now late open_ok s0))"
    and k: "k \<in> set (keys (flows s))"
  from main_cold [OF assms(1)] obtain s1 h s2 where
    c: "collection_loop P offset agg_time evs stop s0 = (None, s1, h)"
    and d: "drain P now offset (if interrupted stop then [] else late) s1 = (None, s2)"
    and ceq: "c = cache s2"
    by blast
  from collection_loop_invariant [OF c] assms(2) have inv: "\<forall>x \<in> set h. known x \<subseteq> known s1"
    and d1: "distinct (keys (cache s1))" by simp_all
  from drain_complete [OF d] d1 have k1: "known s1 \<subseteq> set (keys (cache s2))"
    and f2: "set (keys (flows s2)) \<subseteq> set (keys (cache s2))"
    and d2: "distinct (keys (cache s2))" by simp_all
  from s main_reached(1) [OF c d] have "s \<in> set h \<or> s = s2" by auto
  then have "k \<in> set (keys (cache s2))"
  proof
    assume "s \<in> set h"
    with inv have "known s \<subseteq> known s1" by blast
    moreover from k have "k \<in> known s" by (simp add: known_def)
    ultimately show ?thesis using k1 by blast
  next
    assume "s = s2"
    with k f2 show ?thesis by auto
  qed
  with d2 ceq show "count_list (keys c) k = 1" by (simp add: count_list_distinct)
qed

theorem every_flow_cached_once_witness:
  "cold (main example_env 100 60 example_writes (Interrupt_in_sweep 165 0 True) 170 [] True no_flows) =
     Some (cache drained_ab) \<and>
   distinct (keys (cache no_flows)) \<and>
   half_moved_b \<in> set (visited (main example_env 100 60 example_writes (Interrupt_in_sweep 165 0 True) 170 [] True no_flows)) \<and>
   count_list (keys (cache drained_ab)) key_a = 1 \<and>
   count_list (keys (cache drained_ab)) key_b = 1"
proof -
  let ?r = "main example_env 100 60 example_writes (Interrupt_in_sweep 165 0 True) 170 [] True no_flows"
  have d: "drain example_env 170 100 (if interrupted (Interrupt_in_sweep 165 0 True) then [] else [])
             half_moved_b = (None, drained_ab)"
    by (simp add: example_half_drain)
  have c: "cold ?r = Some (cache drained_ab)"
    by (rule main_reached(2) [OF example_half_loop d])
  have e: "distinct (keys (cache no_flows))" by (simp add: no_flows_def keys_def)
  have v: "half_moved_b \<in> set (visited ?r)"
    by (simp add: main_reached(1) [OF example_half_loop d])
  have "key_a \<in> set (keys (flows half_moved_b))" "key_b \<in> set (keys (flows half_moved_b))"
    by (simp_all add: half_moved_b_def keys_def)
  with every_flow_cached_once [OF c e] v c e show ?thesis by blast
qed

subsection \<open>C2\<close>

text \<open>
  C2. The claim fails on the start stamp: the report compiler takes the minimum of
  \<^verbatim>\<open>start\<close> over every shard, so a shard that recorded no packet contributes its zero
  stamp. With one idle shard and one shard that started at 3 s, the specification's
  earliest start is 3000000000 and the merged start is 0.
\<close>

theorem idle_shard_gives_zero_start:
  "recorded [idle_shard, shard_a] = [shard_a] \<and>
   earliest_start_ns [idle_shard, shard_a] = 3000000000 \<and>
   merge_accms [idle_shard, shard_a] [0..<CPU_COUNT example_env] (0, 0, - 1, - 1) =
     Inr (1, 60, 0, 5000000000)"
  by (simp add: example_merge)
     (simp add: recorded_def earliest_start_ns_def min_start_def idle_shard_def shard_a_def)

text \<open>
  C2, amended. For a leaf array with one shard per CPU, the merged start is the minimum
  \<^verbatim>\<open>start\<close> and the merged end the maximum \<^verbatim>\<open>end\<close> over all shards, whether or not they
  recorded a packet. Where the shards without packets carry a zero end stamp and some
  shard recorded a packet, the merged end is the maximum \<^verbatim>\<open>end\<close> over the shards that
  recorded a packet.
\<close>

theorem merged_stamps_over_all_shards:
  assumes "length accms = CPU_COUNT P" and "0 < CPU_COUNT P"
  shows "merge_accms accms [0..<CPU_COUNT P] (0, 0, - 1, - 1) =
           Inr (total_packets accms, total_bytes accms, min_start accms, max_end accms) \<and>
         (recorded accms \<noteq> [] \<and> (\<forall>a \<in> set accms. packets a = 0 \<longrightarrow> end_ns a = 0) \<longrightarrow>
            max_end accms = latest_end_ns accms)"
proof -
  have "CPU_COUNT P \<le> length accms" using assms(1) by simp
  from merge_accms_first [OF assms(2) this] assms(1) max_end_recorded [of accms]
  show ?thesis by simp
qed

theorem merged_stamps_over_all_shards_witness:
  "length [idle_shard, shard_a] = CPU_COUNT example_env \<and> 0 < CPU_COUNT example_env \<and>
   recorded [idle_shard, shard_a] \<noteq> [] \<and>
   merge_accms [idle_shard, shard_a] [0..<CPU_COUNT example_env] (0, 0, - 1, - 1) =
     Inr (1, 60, 0, 5000000000) \<and>
   min_start [idle_shard, shard_a] = 0 \<and>
   max_end [idle_shard, shard_a] = 5000000000 \<and>
   latest_end_ns [idle_shard, shard_a] = 5000000000"
proof -
  have l: "length [idle_shard, shard_a] = CPU_COUNT example_env" and p: "0 < CPU_COUNT example_env"
    by (simp_all add: example_env_def)
  have r: "recorded [idle_shard, shard_a] \<noteq> []"
    by (simp add: recorded_def idle_shard_def shard_a_def)
  have z: "\<forall>a \<in> set [idle_shard, shard_a]. packets a = 0 \<longrightarrow> end_ns a = 0"
    by (simp add: idle_shard_def shard_a_def)
  from merged_stamps_over_all_shards [OF l p] r z
  have "Inr (total_packets [idle_shard, shard_a], total_bytes [idle_shard, shard_a],
          min_start [idle_shard, shard_a], max_end [idle_shard, shard_a]) =
        (Inr (1, 60, 0, 5000000000) :: error + int \<times> int \<times> int \<times> int)"
    and "max_end [idle_shard, shard_a] = latest_end_ns [idle_shard, shard_a]"
    by (simp_all add: example_merge)
  with l p r show ?thesis by (simp add: example_merge)
qed

subsection \<open>C3\<close>

text \<open>
  C3. The claim fails for a flow whose idle time is exactly 0, which is non-negative: the
  forced sweep compares with the strict \<^verbatim>\<open>idle_time > agg_time\<close> and leaves the flow, and the
  transfer loop copies it to the cache without deleting it from the live table. At
  \<open>now = 105\<close> and \<open>offset = 100\<close> the flow ended at 5 s of uptime; all the float
  operations involved are exact on these values.
\<close>

theorem zero_idle_flow_stays_live:
  "wf_table example_env (flows live_a) \<and>
   idle_seconds example_env 105 100 [idle_shard, shard_a] = 0 \<and>
   drain example_env 105 100 [] live_a = (None, copied_a) \<and>
   flows copied_a \<noteq> []"
proof -
  have w: "wf_table example_env (flows live_a)"
    by (simp add: wf_table_def live_a_def keys_def example_env_def)
  have f: "find_old example_env 105 100 0 (items (flows live_a)) [] = Inr []"
    by (simp add: items_def live_a_def example_stamps example_idle)
  have s: "sweep_flows example_env 105 100 0 live_a = (None, live_a)"
    by (simp add: sweep_flows_def f)
  have d: "drain example_env 105 100 [] live_a = (None, copied_a)"
    by (simp add: drain_def s classify_Nil)
       (simp add: live_a_def copied_a_def items_def setitem_def keys_def example_env_def)
  show ?thesis using w d by (simp add: example_idle_seconds) (simp add: copied_a_def)
qed

text \<open>
  C3, amended. When every flow of the live table has a strictly positive idle time (and
  the cache has room for them), the forced sweep with threshold 0 followed by the transfer
  loop moves every live flow to the cache with its leaf array and leaves the live table
  empty.
\<close>

theorem positive_idle_drain_empties:
  assumes "wf_table P (flows s)"
    and "\<forall>(k, accms) \<in> set (flows s). idle_seconds P now offset accms > 0"
    and "length (cache s) + length (flows s) \<le> cache_max P"
  shows "\<exists>s'. drain P now offset [] s = (None, s') \<and> flows s' = [] \<and>
           (\<forall>(k, accms) \<in> set (flows s). map_of (cache s') k = Some accms)"
proof -
  from assms(1) have d: "distinct (map fst (flows s))"
    and l: "list_all (\<lambda>kv. CPU_COUNT P \<le> length (snd kv)) (flows s)"
    by (simp_all add: wf_table_def keys_def)
  have "filter (\<lambda>kv. idle_seconds P now offset (snd kv) > of_int 0) (flows s) = flows s"
    using assms(2) by (intro filter_all) auto
  with find_old_filter [OF l, of now offset 0 "[]"]
  have f: "find_old P now offset 0 (items (flows s)) [] = Inr (keys (flows s))"
    by (simp add: items_def keys_def)
  have "\<exists>s'. move_old P (keys (flows s)) s = (None, s')"
    using d assms(3) by (intro move_old_total) (simp_all add: keys_def)
  then obtain s' where m: "move_old P (keys (flows s)) s = (None, s')" ..
  have e: "flows s' = []"
    using move_old_done [OF m] by (simp add: keys_def)
  have sw: "sweep_flows P now offset 0 s = (None, s')"
    by (simp add: sweep_flows_def f m)
  have dr: "drain P now offset [] s = (None, s')"
    by (simp add: drain_def sw classify_Nil e items_def)
  have "\<forall>(k, accms) \<in> set (flows s). map_of (cache s') k = Some accms"
  proof (clarify)
    fix k accms assume in_t: "(k, accms) \<in> set (flows s)"
    then have "k \<in> set (keys (flows s))" by (force simp: keys_def)
    moreover have "k \<notin> set (keys (flows s'))" by (simp add: e keys_def)
    ultimately have "map_of (cache s') k = map_of (flows s) k"
      using move_old_stored [OF m] by blast
    with d in_t show "map_of (cache s') k = Some accms" by simp
  qed
  with dr e show ?thesis by blast
qed

theorem positive_idle_drain_empties_witness:
  "wf_table example_env (flows live_ab) \<and>
   idle_seconds example_env 170 100 [idle_shard, shard_a] = 65 \<and>
   idle_seconds example_env 170 100 [shard_b, idle_shard] = 66 \<and>
   length (cache live_ab) + length (flows live_ab) \<le> cache_max example_env \<and>
   (\<exists>s'. drain example_env 170 100 [] live_ab = (None, s') \<and> flows s' = [] \<and>
      map_of (cache s') key_a = Some [idle_shard, shard_a] \<and>
      map_of (cache s') key_b = Some [shard_b, idle_shard])"
proof -
  have w: "wf_table example_env (flows live_ab)"
    using key_a_neq_b by (simp add: wf_table_def live_ab_def keys_def example_env_def)
  have i: "\<forall>(k, accms) \<in> set (flows live_ab). idle_seconds example_env 170 100 accms > 0"
    by (simp add: live_ab_def example_idle_seconds)
  have c: "length (cache live_ab) + length (flows live_ab) \<le> cache_max example_env"
    by (simp add: live_ab_def example_env_def)
  from positive_idle_drain_empties [OF w i c] obtain s' where
    "drain example_env 170 100 [] live_ab = (None, s')" "flows s' = []"
    "\<forall>(k, accms) \<in> set (flows live_ab). map_of (cache s') k = Some accms"
    by blast
  then have "drain example_env 170 100 [] live_ab = (None, s') \<and> flows s' = [] \<and>
      map_of (cache s') key_a = Some [idle_shard, shard_a] \<and>
      map_of (cache s') key_b = Some [shard_b, idle_shard]"
    by (simp add: live_ab_def)
  with w c show ?thesis by (auto simp: example_idle_seconds)
qed

subsection \<open>C4\<close>

text \<open>
  C4. When the run completes normally, when KeyboardInterrupt ends the collection loop
  (during the sleep or in the middle of a sweep), and when an error is raised in the
  \<^verbatim>\<open>try\<close> block of the report compiler, \<^verbatim>\<open>remove_xdp\<close> has run by the time the process
  ends, and it runs before any line of the report is written. An exception of a sweep or
  of the drain that no interruption precedes is none of these three paths: nothing
  catches it.
\<close>

theorem teardown_on_named_exit_paths:
  assumes "r = main P offset agg_time evs stop now late open_ok s0"
    and "raised r = None \<or>
         (interrupted stop \<and> fst (collection_loop P offset agg_time evs stop s0) = None) \<or>
         (cold r \<noteq> None \<and> raised r \<noteq> None)"
  shows "0 < detached r \<and> written (takeWhile (\<lambda>x. x \<noteq> Remove_xdp) (effects r)) = []"
proof -
  obtain e1 s1 h where c: "collection_loop P offset agg_time evs stop s0 = (e1, s1, h)"
    by (cases "collection_loop P offset agg_time evs stop s0")
  show ?thesis
  proof (cases e1)
    case (Some x)
    with c assms show ?thesis by (simp add: main_def)
  next
    case None
    obtain e2 s2 where d: "drain P now offset (if interrupted stop then [] else late) s1 = (e2, s2)"
      by (cases "drain P now offset (if interrupted stop then [] else late) s1")
    show ?thesis
    proof (cases e2)
      case (Some x)
      with c None d assms show ?thesis by (auto simp: main_def detached_def)
    next
      case n2: None
      from c None d n2 have cc: "collection_loop P offset agg_time evs stop s0 = (None, s1, h)"
        and dd: "drain P now offset (if interrupted stop then [] else late) s1 = (None, s2)"
        by simp_all
      have fx: "effects r = (if interrupted stop then [Remove_xdp] else []) @
                  snd (report P offset open_ok (cache s2))"
        unfolding assms(1) by (rule main_reached(4) [OF cc dd])
      show ?thesis
        using report_detaches_once [of P offset open_ok "cache s2"]
          report_detaches_first [of P offset open_ok "cache s2"]
        by (cases "interrupted stop") (simp_all add: fx detached_def)
    qed
  qed
qed

theorem teardown_on_named_exit_paths_witness:
  "raised (main example_env 100 60 vlan_run Interrupt 170 [] True no_flows) = Some AttributeError \<and>
   cold (main example_env 100 60 vlan_run Interrupt 170 [] True no_flows) \<noteq> None \<and>
   effects (main example_env 100 60 vlan_run Interrupt 170 [] True no_flows) =
     [Remove_xdp, Open_w, Remove_xdp] \<and>
   0 < detached (main example_env 100 60 vlan_run Interrupt 170 [] True no_flows)"
proof -
  let ?r = "main example_env 100 60 vlan_run Interrupt 170 [] True no_flows"
  have d: "drain example_env 170 100 (if interrupted Interrupt then [] else []) live_v = (None, drained_v)"
    by (simp add: example_vlan_drain)
  note m = main_reached [OF example_vlan_loop d, of True]
  have 1: "raised ?r = Some AttributeError" by (simp add: m(3) example_vlan_report)
  have 2: "cold ?r \<noteq> None" by (simp add: m(2))
  have 3: "effects ?r = [Remove_xdp, Open_w, Remove_xdp]" by (simp add: m(4) example_vlan_report)
  have "raised ?r = None \<or>
         (interrupted Interrupt \<and> fst (collection_loop example_env 100 60 vlan_run Interrupt no_flows) = None) \<or>
         (cold ?r \<noteq> None \<and> raised ?r \<noteq> None)"
    using 1 2 by simp
  from teardown_on_named_exit_paths [OF refl this] 1 2 3 show ?thesis by simp
qed

subsection \<open>C5\<close>

text \<open>
  C5. For every flow of a well-formed live table the sweep computes
  \<open>idle_seconds = now - (latest_end_ns/1e9 + offset)\<close>, where the latest end stamp is the
  greatest \<^verbatim>\<open>end\<close> among the flow's shards (0 at least), and puts the flow's key on the list
  of eviction candidates if and only if \<open>idle_seconds\<close> is strictly greater than the
  threshold; a flow whose idle time equals the threshold is no candidate. The candidates
  are the keys the second pass then moves.
\<close>

theorem sweep_marks_strictly_idle:
  assumes "wf_table P (flows s)"
  shows "\<exists>old_flows.
           find_old P now offset agg_time (items (flows s)) [] = Inr old_flows \<and>
           sweep_flows P now offset agg_time s = move_old P old_flows s \<and>
           (\<forall>(k, accms) \<in> set (flows s).
              (k \<in> set old_flows \<longleftrightarrow> idle_seconds P now offset accms > of_int agg_time) \<and>
              (idle_seconds P now offset accms = of_int agg_time \<longrightarrow> k \<notin> set old_flows))"
proof -
  let ?old = "map fst (filter (\<lambda>kv. idle_seconds P now offset (snd kv) > of_int agg_time) (flows s))"
  from assms have d: "distinct (map fst (flows s))"
    and l: "list_all (\<lambda>kv. CPU_COUNT P \<le> length (snd kv)) (flows s)"
    by (simp_all add: wf_table_def keys_def)
  have f: "find_old P now offset agg_time (items (flows s)) [] = Inr ?old"
    using find_old_filter [OF l, of now offset agg_time "[]"] by (simp add: items_def)
  then have m: "sweep_flows P now offset agg_time s = move_old P ?old s"
    by (simp add: sweep_flows_def)
  have "\<forall>(k, accms) \<in> set (flows s).
          (k \<in> set ?old \<longleftrightarrow> idle_seconds P now offset accms > of_int agg_time) \<and>
          (idle_seconds P now offset accms = of_int agg_time \<longrightarrow> k \<notin> set ?old)"
    using key_in_filter [OF d] by fastforce
  with f m show ?thesis by blast
qed

theorem sweep_marks_strictly_idle_witness:
  "wf_table example_env (flows live_ab) \<and>
   idle_seconds example_env 165 100 [idle_shard, shard_a] = 60 \<and>
   idle_seconds example_env 165 100 [shard_b, idle_shard] = 61 \<and>
   (\<exists>old_flows. find_old example_env 165 100 60 (items (flows live_ab)) [] = Inr old_flows \<and>
      key_a \<notin> set old_flows \<and> key_b \<in> set old_flows)"
proof -
  have h: "wf_table example_env (flows live_ab)"
    by (simp add: wf_table_def example_simps keys_def)
  have a: "idle_seconds example_env 165 100 [idle_shard, shard_a] = 60"
    by (simp add: idle_seconds_def latest_end_def example_simps)
  have b: "idle_seconds example_env 165 100 [shard_b, idle_shard] = 61"
    by (simp add: idle_seconds_def latest_end_def example_simps)
  from sweep_marks_strictly_idle [OF h, of 165 100 60] obtain old_flows where
    f: "find_old example_env 165 100 60 (items (flows live_ab)) [] = Inr old_flows"
    and m: "\<forall>(k, accms) \<in> set (flows live_ab).
              (k \<in> set old_flows \<longleftrightarrow> idle_seconds example_env 165 100 accms > of_int 60) \<and>
              (idle_seconds example_env 165 100 accms = of_int 60 \<longrightarrow> k \<notin> set old_flows)"
    by blast
  from m a b have "key_a \<notin> set old_flows \<and> key_b \<in> set old_flows"
    by (simp add: live_ab_def)
  with h a b f show ?thesis by blast
qed

subsection \<open>C6\<close>

text \<open>
  C6. A sweep first computes the whole candidate list from the unchanged tables (when
  that pass raises, the tables are as before), and only then runs the second pass from
  the same tables. Whatever the second pass does, also when a table operation raises in
  the middle, a key that has left the live table is a candidate and the cache holds the
  leaf array the live table had for it. When the sweep completes, exactly the candidates
  have left the live table.
\<close>

theorem sweep_stores_before_removing:
  assumes "sweep_flows P now offset agg_time s = (e, s')"
  shows "(\<forall>x. find_old P now offset agg_time (items (flows s)) [] = Inl x \<longrightarrow> e = Some x \<and> s' = s) \<and>
         (\<forall>old_flows. find_old P now offset agg_time (items (flows s)) [] = Inr old_flows \<longrightarrow>
            move_old P old_flows s = (e, s') \<and>
            (\<forall>k \<in> set (keys (flows s)). k \<notin> set (keys (flows s')) \<longrightarrow>
               k \<in> set old_flows \<and> map_of (cache s') k = map_of (flows s) k) \<and>
            (e = None \<longrightarrow> flows s' = filter (\<lambda>kv. fst kv \<notin> set old_flows) (flows s)))"
proof (intro conjI allI impI)
  fix x assume "find_old P now offset agg_time (items (flows s)) [] = Inl x"
  with assms show "e = Some x" and "s' = s" by (simp_all add: sweep_flows_def)
next
  fix old_flows assume f: "find_old P now offset agg_time (items (flows s)) [] = Inr old_flows"
  with assms show m: "move_old P old_flows s = (e, s')" by (simp add: sweep_flows_def)
  show "\<forall>k \<in> set (keys (flows s)). k \<notin> set (keys (flows s')) \<longrightarrow>
          k \<in> set old_flows \<and> map_of (cache s') k = map_of (flows s) k"
    using move_old_stored [OF m] by blast
  assume "e = None"
  with m show "flows s' = filter (\<lambda>kv. fst kv \<notin> set old_flows) (flows s)"
    by (simp add: move_old_done)
qed

theorem sweep_stores_before_removing_witness:
  "sweep_flows example_env 165 100 60 live_ab =
     (None, \<lparr>flows = [(key_a, [idle_shard, shard_a])], cache = [(key_b, [shard_b, idle_shard])]\<rparr>) \<and>
   find_old example_env 165 100 60 (items (flows live_ab)) [] = Inr [key_b] \<and>
   move_old example_env [key_b] live_ab =
     (None, \<lparr>flows = [(key_a, [idle_shard, shard_a])], cache = [(key_b, [shard_b, idle_shard])]\<rparr>)"
proof -
  have f: "find_old example_env 165 100 60 (items (flows live_ab)) [] = Inr [key_b]"
    by (simp add: items_def live_ab_def idle_time_def to_unix_def example_env_def
        idle_shard_def shard_a_def shard_b_def upt_two)
  have ne: "key_a \<noteq> key_b" by (simp add: key_a_def key_b_def)
  have m: "move_old example_env [key_b] live_ab =
     (None, \<lparr>flows = [(key_a, [idle_shard, shard_a])], cache = [(key_b, [shard_b, idle_shard])]\<rparr>)"
    using ne by (simp add: live_ab_def getitem_def setitem_def delitem_def keys_def example_env_def)
  have s: "sweep_flows example_env 165 100 60 live_ab =
     (None, \<lparr>flows = [(key_a, [idle_shard, shard_a])], cache = [(key_b, [shard_b, idle_shard])]\<rparr>)"
    by (simp only: sweep_flows_def f sum.case m)
  from sweep_stores_before_removing [OF s] f s show ?thesis by blast
qed

subsection \<open>C7\<close>

text \<open>
  C7. When the report is written, the file holds the fixed header line followed by the
  rows: no row text occurs twice, the rows are exactly the rendered texts of the cache
  entries, they are in ascending order of the number \<^verbatim>\<open>float\<close> reads from the text before
  their first comma, and two different cache entries with the same rendered text give one
  row. The iteration order of the Python set is any enumeration of its elements.
\<close>

theorem report_dedups_sorts_and_heads:
  assumes "report P offset open_ok c = (None, fx)"
    and "\<forall>xs. distinct xs \<longrightarrow> distinct (set_iter P xs) \<and> set (set_iter P xs) = set xs"
  shows "\<exists>rows.
           written fx =
             (''START, END, SRC IP, DST IP, SRC PORT, DST PORT, ETHER TYPE, PROTO, #PACKETS, #BYTES'' @ [CHR 0x0A]) # rows \<and>
           distinct rows \<and>
           set rows = {x. \<exists>kv \<in> set c. flow_row P offset kv = Inr x} \<and>
           sorted (map (\<lambda>x. the (float_of_str P (leading x))) rows) \<and>
           (\<forall>x \<in> set rows. leading x = takeWhile (\<lambda>ch. ch \<noteq> CHR '','') x) \<and>
           (\<forall>kv1 \<in> set c. \<forall>kv2 \<in> set c. \<forall>x.
              kv1 \<noteq> kv2 \<and> flow_row P offset kv1 = Inr x \<and> flow_row P offset kv2 = Inr x \<longrightarrow>
              count_list rows x = 1)"
proof -
  let ?key = "\<lambda>x. the (float_of_str P (leading x))"
  from report_None [OF assms(1)] obtain flow_set where
    c: "compile_rows P offset (items c) [] = Inr flow_set"
    and fx: "fx = [Open_w, Remove_xdp] @ map Write (header # sort_key ?key (set_iter P flow_set))"
    by blast
  let ?rows = "sort_key ?key (set_iter P flow_set)"
  from compile_rows_Inr [OF c]
  have s: "set flow_set = {x. \<exists>kv \<in> set c. flow_row P offset kv = Inr x}"
    and d: "distinct flow_set" by (simp_all add: items_def)
  from assms(2) d have d': "distinct (set_iter P flow_set)" and s': "set (set_iter P flow_set) = set flow_set"
    by simp_all
  have w: "written fx = header # ?rows"
    by (simp add: fx written_Write)
  have dr: "distinct ?rows" using d' by simp
  have sr: "set ?rows = {x. \<exists>kv \<in> set c. flow_row P offset kv = Inr x}"
    using s s' by simp
  have so: "sorted (map ?key ?rows)" by (rule sorted_sort_key)
  have le: "\<forall>x \<in> set ?rows. leading x = takeWhile (\<lambda>ch. ch \<noteq> CHR '','') x"
  proof
    fix x assume "x \<in> set ?rows"
    with sr obtain kv where "flow_row P offset kv = Inr x" by auto
    then obtain r where "x = format_row P r" by (auto simp: flow_row_def split: sum.splits)
    then show "leading x = takeWhile (\<lambda>ch. ch \<noteq> CHR '','') x"
      using leading_format_row [of P r] by (simp add: leading_def)
  qed
  have co: "\<forall>kv1 \<in> set c. \<forall>kv2 \<in> set c. \<forall>x.
              kv1 \<noteq> kv2 \<and> flow_row P offset kv1 = Inr x \<and> flow_row P offset kv2 = Inr x \<longrightarrow>
              count_list ?rows x = 1"
  proof (intro ballI allI impI)
    fix kv1 kv2 x
    assume "kv1 \<in> set c" and "kv1 \<noteq> kv2 \<and> flow_row P offset kv1 = Inr x \<and> flow_row P offset kv2 = Inr x"
    with sr have "x \<in> set ?rows" by auto
    with dr show "count_list ?rows x = 1" by (simp add: count_list_distinct)
  qed
  from w dr sr so le co show ?thesis by (simp only: header_def) blast
qed

theorem report_dedups_sorts_and_heads_witness:
  "report example_env 100 True final_cache =
     (None, [Open_w, Remove_xdp, Write header, Write row_b, Write row_a]) \<and>
   (key_b, [shard_b, shard_b]) \<noteq> (key_c, [shard_b, shard_b]) \<and>
   flow_row example_env 100 (key_b, [shard_b, shard_b]) = Inr row_b \<and>
   flow_row example_env 100 (key_c, [shard_b, shard_b]) = Inr row_b \<and>
   count_list [row_b, row_a] row_b = 1 \<and>
   sorted (map (\<lambda>x. the (float_of_str example_env (leading x))) [row_b, row_a])"
proof -
  have p: "\<forall>xs. distinct xs \<longrightarrow> distinct (set_iter example_env xs) \<and> set (set_iter example_env xs) = set xs"
    by (simp add: example_env_def)
  have n: "(key_b, [shard_b, shard_b]) \<noteq> (key_c, [shard_b, shard_b])"
    by (simp add: key_b_def key_c_def)
  have i: "(key_b, [shard_b, shard_b]) \<in> set final_cache" "(key_c, [shard_b, shard_b]) \<in> set final_cache"
    by (simp_all add: final_cache_def)
  from report_dedups_sorts_and_heads [OF example_report p] obtain rows where
    w: "written [Open_w, Remove_xdp, Write header, Write row_b, Write row_a] =
         (''START, END, SRC IP, DST IP, SRC PORT, DST PORT, ETHER TYPE, PROTO, #PACKETS, #BYTES'' @ [CHR 0x0A]) # rows"
    and s: "sorted (map (\<lambda>x. the (float_of_str example_env (leading x))) rows)"
    and c: "\<forall>kv1 \<in> set final_cache. \<forall>kv2 \<in> set final_cache. \<forall>x.
              kv1 \<noteq> kv2 \<and> flow_row example_env 100 kv1 = Inr x \<and> flow_row example_env 100 kv2 = Inr x \<longrightarrow>
              count_list rows x = 1"
    by blast
  from w have r: "rows = [row_b, row_a]" by simp
  from c i n example_flow_row(2,3) have "count_list rows row_b = 1" by blast
  with r s n example_flow_row(2,3) show ?thesis by (simp add: example_report)
qed

subsection \<open>C8\<close>

text \<open>
  C8. For a cache entry whose ethertype is neither 0x0800 nor 0x8100 (and whose leaf array
  has a shard for every CPU) the row is rendered without raising: both address columns
  are the empty string and the ports, the ethertype, the protocol and the totals are
  rendered as for any other row. Such an entry never aborts the compilation (an abort
  comes from another entry), and every compiled row is the rendering of its own entry
  alone.
\<close>

theorem unknown_ethertype_leaves_addresses_empty:
  assumes "l2_proto k \<noteq> 0x0800" and "l2_proto k \<noteq> 0x8100"
    and "CPU_COUNT P \<le> length accms" and "(k, accms) \<in> set c"
  shows "\<exists>r. row_of P offset (k, accms) = Inr r \<and>
           col_src_ip r = [] \<and> col_dst_ip r = [] \<and>
           format_row P r =
             float_str P (col_start r) @ '','' @ float_str P (col_end r) @ '',,,'' @
             str_nat (unat (ntohs (src_port k))) @ '','' @ str_nat (unat (ntohs (dst_port k))) @ '','' @
             hex (unat (l2_proto k)) @ '','' @ str_nat (unat (l4_proto k)) @ '','' @
             str_int (total_packets (take (CPU_COUNT P) accms)) @ '','' @
             str_int (total_bytes (take (CPU_COUNT P) accms)) @ [CHR 0x0A] \<and>
           (\<forall>e. compile_rows P offset (items c) [] = Inl e \<longrightarrow>
              (\<exists>kv \<in> set c. kv \<noteq> (k, accms) \<and> flow_row P offset kv = Inl e)) \<and>
           (\<forall>rows. compile_rows P offset (items c) [] = Inr rows \<longrightarrow>
              format_row P r \<in> set rows \<and>
              set rows = {x. \<exists>kv \<in> set c. flow_row P offset kv = Inr x})"
proof -
  from merge_accms_totals [OF assms(3)] obtain st en where
    m: "merge_accms accms [0..<CPU_COUNT P] (0, 0, - 1, - 1) =
       Inr (total_packets (take (CPU_COUNT P) accms), total_bytes (take (CPU_COUNT P) accms), st, en)"
    by blast
  have a: "addr_columns k = Inr ([], [])"
    using assms(1,2) by (simp add: addr_columns_def)
  let ?r = "\<lparr>col_start = to_unix P offset st, col_end = to_unix P offset en,
              col_src_ip = [], col_dst_ip = [],
              col_src_p = unat (ntohs (src_port k)), col_dst_p = unat (ntohs (dst_port k)),
              col_l2_proto = unat (l2_proto k), col_l4_proto = unat (l4_proto k),
              col_n_packets = total_packets (take (CPU_COUNT P) accms),
              col_n_bytes = total_bytes (take (CPU_COUNT P) accms)\<rparr>"
  have r: "row_of P offset (k, accms) = Inr ?r"
    by (simp add: row_of_def m a)
  then have fr: "flow_row P offset (k, accms) = Inr (format_row P ?r)"
    by (simp add: flow_row_def)
  have 1: "col_src_ip ?r = [] \<and> col_dst_ip ?r = []" by simp
  have 2: "format_row P ?r =
             float_str P (col_start ?r) @ '','' @ float_str P (col_end ?r) @ '',,,'' @
             str_nat (unat (ntohs (src_port k))) @ '','' @ str_nat (unat (ntohs (dst_port k))) @ '','' @
             hex (unat (l2_proto k)) @ '','' @ str_nat (unat (l4_proto k)) @ '','' @
             str_int (total_packets (take (CPU_COUNT P) accms)) @ '','' @
             str_int (total_bytes (take (CPU_COUNT P) accms)) @ [CHR 0x0A]"
    by (simp add: format_row_def)
  have 3: "\<forall>e. compile_rows P offset (items c) [] = Inl e \<longrightarrow>
              (\<exists>kv \<in> set c. kv \<noteq> (k, accms) \<and> flow_row P offset kv = Inl e)"
  proof (intro allI impI)
    fix e assume "compile_rows P offset (items c) [] = Inl e"
    from compile_rows_Inl [OF this] obtain kv where kv: "kv \<in> set c" and ke: "flow_row P offset kv = Inl e"
      by (auto simp: items_def)
    have "kv \<noteq> (k, accms)"
    proof
      assume "kv = (k, accms)"
      with ke fr show False by simp
    qed
    with kv ke show "\<exists>kv \<in> set c. kv \<noteq> (k, accms) \<and> flow_row P offset kv = Inl e" by blast
  qed
  have 4: "\<forall>rows. compile_rows P offset (items c) [] = Inr rows \<longrightarrow>
              format_row P ?r \<in> set rows \<and>
              set rows = {x. \<exists>kv \<in> set c. flow_row P offset kv = Inr x}"
  proof (intro allI impI)
    fix rows assume "compile_rows P offset (items c) [] = Inr rows"
    from compile_rows_Inr [OF this]
    have s: "set rows = {x. \<exists>kv \<in> set c. flow_row P offset kv = Inr x}"
      by (simp add: items_def)
    with fr assms(4) show "format_row P ?r \<in> set rows \<and>
              set rows = {x. \<exists>kv \<in> set c. flow_row P offset kv = Inr x}" by auto
  qed
  from r 1 2 3 4 show ?thesis by blast
qed

theorem unknown_ethertype_leaves_addresses_empty_witness:
  "l2_proto key_b \<noteq> 0x0800 \<and> l2_proto key_b \<noteq> 0x8100 \<and>
   CPU_COUNT example_env \<le> length [shard_b, shard_b] \<and>
   (key_b, [shard_b, shard_b]) \<in> set final_cache \<and>
   compile_rows example_env 100 (items final_cache) [] = Inr [row_a, row_b] \<and>
   (\<exists>r. row_of example_env 100 (key_b, [shard_b, shard_b]) = Inr r \<and>
      col_src_ip r = [] \<and> col_dst_ip r = [] \<and> format_row example_env r = row_b)"
proof -
  have 1: "l2_proto key_b \<noteq> 0x0800" and 2: "l2_proto key_b \<noteq> 0x8100"
    by (simp_all add: key_b_def)
  have 3: "CPU_COUNT example_env \<le> length [shard_b, shard_b]" by (simp add: example_env_def)
  have 4: "(key_b, [shard_b, shard_b]) \<in> set final_cache" by (simp add: final_cache_def)
  from unknown_ethertype_leaves_addresses_empty [OF 1 2 3 4, of 100] obtain r where
    r: "row_of example_env 100 (key_b, [shard_b, shard_b]) = Inr r"
    and e: "col_src_ip r = []" "col_dst_ip r = []" by blast
  from r example_flow_row(2) have "format_row example_env r = row_b"
    by (simp add: flow_row_def)
  with 1 2 3 4 r e show ?thesis by (auto simp: example_compile)
qed

subsection \<open>C9\<close>

text \<open>
  C9. For every entry of the final cache with one shard per CPU, the packet and byte
  totals of its report row are the exact sums of \<^verbatim>\<open>packets\<close> and \<^verbatim>\<open>bytes\<close> over all of its
  shards (Python integers do not wrap), the row is among the compiled rows and it ends
  with the two totals in decimal.
\<close>

theorem row_totals_are_shard_sums:
  assumes "compile_rows P offset (items c) [] = Inr rows"
    and "(k, accms) \<in> set c" and "length accms = CPU_COUNT P"
  shows "\<exists>r. row_of P offset (k, accms) = Inr r \<and>
           col_n_packets r = total_packets accms \<and> col_n_bytes r = total_bytes accms \<and>
           format_row P r \<in> set rows \<and>
           (\<exists>pre. format_row P r = pre @ '','' @ str_int (total_packets accms) @ '','' @
                     str_int (total_bytes accms) @ [CHR 0x0A])"
proof -
  from compile_rows_Inr [OF assms(1)] assms(2) obtain x where
    x: "flow_row P offset (k, accms) = Inr x" and xin: "x \<in> set rows"
    by (fastforce simp: items_def)
  then obtain r where r: "row_of P offset (k, accms) = Inr r" and xr: "x = format_row P r"
    by (auto simp: flow_row_def split: sum.splits)
  note t = row_of_totals [OF r assms(3)]
  have "\<exists>pre. format_row P r = pre @ '','' @ str_int (total_packets accms) @ '','' @
                     str_int (total_bytes accms) @ [CHR 0x0A]"
    unfolding format_row_def t
    by (rule exI [of _ "float_str P (col_start r) @ '','' @ float_str P (col_end r) @ '','' @
     col_src_ip r @ '','' @ col_dst_ip r @ '','' @
     str_nat (col_src_p r) @ '','' @ str_nat (col_dst_p r) @ '','' @
     hex (col_l2_proto r) @ '','' @ str_nat (col_l4_proto r)"]) simp
  with r t xin xr show ?thesis by blast
qed

theorem row_totals_are_shard_sums_witness:
  "compile_rows example_env 100 (items final_cache) [] = Inr [row_a, row_b] \<and>
   (key_a, [shard_a, shard_a]) \<in> set final_cache \<and>
   length [shard_a, shard_a] = CPU_COUNT example_env \<and>
   total_packets [shard_a, shard_a] = 2 \<and> total_bytes [shard_a, shard_a] = 120 \<and>
   (\<exists>r. row_of example_env 100 (key_a, [shard_a, shard_a]) = Inr r \<and>
      col_n_packets r = 2 \<and> col_n_bytes r = 120 \<and> format_row example_env r \<in> set [row_a, row_b])"
proof -
  have i: "(key_a, [shard_a, shard_a]) \<in> set final_cache" by (simp add: final_cache_def)
  have l: "length [shard_a, shard_a] = CPU_COUNT example_env" by (simp add: example_env_def)
  have t: "total_packets [shard_a, shard_a] = 2" "total_bytes [shard_a, shard_a] = 120"
    by (simp_all add: total_packets_def total_bytes_def shard_a_def)
  from row_totals_are_shard_sums [OF example_compile i l] t i l show ?thesis
    by (auto simp: example_compile)
qed

subsection \<open>C10\<close>

text \<open>
  C10. In a run that reaches the \<^verbatim>\<open>try ... finally\<close> block of the report compiler,
  \<^verbatim>\<open>remove_xdp\<close> runs twice when the collection loop was interrupted, once in the handler
  of KeyboardInterrupt and once in the \<^verbatim>\<open>finally\<close> block, and exactly once, in the
  \<^verbatim>\<open>finally\<close> block, otherwise.
\<close>

theorem detach_twice_after_interrupt:
  assumes "r = main P offset agg_time evs stop now late open_ok s0"
    and "cold r \<noteq> None"
  shows "\<exists>c. cold r = Some c \<and>
           effects r = (if interrupted stop then [Remove_xdp] else []) @ snd (report P offset open_ok c) \<and>
           length (filter (\<lambda>x. x = Remove_xdp) (snd (report P offset open_ok c))) = 1 \<and>
           detached r = (if interrupted stop then 2 else 1)"
proof -
  from assms(2) obtain c where c: "cold r = Some c" by auto
  from main_cold [OF c [unfolded assms(1)]] obtain s1 h s2 where
    cc: "collection_loop P offset agg_time evs stop s0 = (None, s1, h)"
    and dd: "drain P now offset (if interrupted stop then [] else late) s1 = (None, s2)"
    and ceq: "c = cache s2" by blast
  have fx: "effects r = (if interrupted stop then [Remove_xdp] else []) @ snd (report P offset open_ok c)"
    unfolding assms(1) ceq by (rule main_reached(4) [OF cc dd])
  note one = report_detaches_once [of P offset open_ok c]
  have "detached r = (if interrupted stop then 2 else 1)"
    using one by (simp add: detached_def fx)
  with c fx one show ?thesis by blast
qed

theorem detach_twice_after_interrupt_witness:
  "cold (main example_env 100 60 example_run Interrupt 170 [] True no_flows) \<noteq> None \<and>
   detached (main example_env 100 60 example_run Interrupt 170 [] True no_flows) = 2 \<and>
   cold (main example_env 100 60 example_run WindowEnd 170 [] True no_flows) \<noteq> None \<and>
   detached (main example_env 100 60 example_run WindowEnd 170 [] True no_flows) = 1"
proof -
  let ?i = "main example_env 100 60 example_run Interrupt 170 [] True no_flows"
  let ?w = "main example_env 100 60 example_run WindowEnd 170 [] True no_flows"
  have di: "drain example_env 170 100 (if interrupted Interrupt then [] else []) swept_b = (None, drained_ab)"
    and dw: "drain example_env 170 100 (if interrupted WindowEnd then [] else []) swept_b = (None, drained_ab)"
    by (simp_all add: example_drain_170)
  have ci: "cold ?i \<noteq> None" by (simp add: main_reached(2) [OF example_loop(2) di])
  have cw: "cold ?w \<noteq> None" by (simp add: main_reached(2) [OF example_loop(1) dw])
  from detach_twice_after_interrupt [OF refl ci] have "detached ?i = 2" by auto
  moreover from detach_twice_after_interrupt [OF refl cw] have "detached ?w = 1" by auto
  ultimately show ?thesis using ci cw by simp
qed

end
